theory Spec2Isabelle
  imports Main "HOL-Library.Char_ord" "HOL-Library.List_Lexorder"
begin

section \<open>Python strings\<close>

text \<open>
  Python \<open>str\<close> values are modelled as \<open>string\<close> over ASCII; the string methods
  the two modules call are written out below with the results Python gives on ASCII text.
  The backslash is \<open>CHR 0x5C\<close>.
\<close>

definition backslash :: char where
  "backslash = CHR 0x5C"

definition startswith :: "string \<Rightarrow> string \<Rightarrow> bool" where
  "startswith s p = (take (length p) s = p)"

definition endswith :: "string \<Rightarrow> string \<Rightarrow> bool" where
  "endswith s p = (length p \<le> length s \<and> drop (length s - length p) s = p)"

text \<open>\<open>str.isspace\<close> on ASCII: tab, LF, VT, FF, CR, the separators 0x1C..0x1F and space.\<close>

definition isspace :: "char \<Rightarrow> bool" where
  "isspace c = (c \<in> set [CHR 0x09, CHR 0x0A, CHR 0x0B, CHR 0x0C, CHR 0x0D,
                          CHR 0x1C, CHR 0x1D, CHR 0x1E, CHR 0x1F, CHR '' ''])"

text \<open>\<open>s.strip(chars)\<close>: drop leading and trailing characters that are in \<open>chars\<close>.\<close>

definition strip_chars :: "(char \<Rightarrow> bool) \<Rightarrow> string \<Rightarrow> string" where
  "strip_chars p s = rev (dropWhile p (rev (dropWhile p s)))"

definition strip :: "string \<Rightarrow> string" where
  "strip s = strip_chars isspace s"

text \<open>\<open>s.split(sep)\<close> for a one-character separator: never an empty list.\<close>

fun split_acc :: "char \<Rightarrow> string \<Rightarrow> string \<Rightarrow> string list" where
  "split_acc sep cur [] = [cur]"
| "split_acc sep cur (c # cs) =
     (if c = sep then cur # split_acc sep [] cs else split_acc sep (cur @ [c]) cs)"

definition split :: "char \<Rightarrow> string \<Rightarrow> string list" where
  "split sep s = split_acc sep [] s"

text \<open>\<open>s.partition(sep)\<close> for a one-character separator.\<close>

definition partition_str :: "char \<Rightarrow> string \<Rightarrow> string \<times> string \<times> string" where
  "partition_str sep s =
     (let before = takeWhile (\<lambda>c. c \<noteq> sep) s; rest = dropWhile (\<lambda>c. c \<noteq> sep) s
      in case rest of [] \<Rightarrow> (s, [], []) | _ # after \<Rightarrow> (before, [sep], after))"

text \<open>\<open>sep.join(xs)\<close>.\<close>

fun join :: "string \<Rightarrow> string list \<Rightarrow> string" where
  "join sep [] = []"
| "join sep [x] = x"
| "join sep (x # y # ys) = x @ sep @ join sep (y # ys)"

text \<open>
  \<open>s.splitlines()\<close>: the ASCII line boundaries are LF, CR, CR LF, VT, FF and
  0x1C..0x1E; no empty last line is produced. The flag says that the previous character
  was a CR, so that a following LF belongs to the same boundary.
\<close>

definition is_linebreak :: "char \<Rightarrow> bool" where
  "is_linebreak c = (c \<in> set [CHR 0x0A, CHR 0x0B, CHR 0x0C, CHR 0x0D, CHR 0x1C, CHR 0x1D, CHR 0x1E])"

fun splitlines_acc :: "bool \<Rightarrow> string \<Rightarrow> string \<Rightarrow> string list" where
  "splitlines_acc after_cr cur [] = (if cur = [] then [] else [cur])"
| "splitlines_acc after_cr cur (c # cs) =
     (if after_cr \<and> c = CHR 0x0A then splitlines_acc False cur cs
      else if is_linebreak c then cur # splitlines_acc (c = CHR 0x0D) [] cs
      else splitlines_acc False (cur @ [c]) cs)"

definition splitlines :: "string \<Rightarrow> string list" where
  "splitlines s = splitlines_acc False [] s"

section \<open>importlib\_metadata: sectioned text and legacy requirements\<close>

text \<open>\<open>Pair\<close> is the named tuple \<open>(name, value)\<close>; the name is \<open>None\<close> before the first header.\<close>

type_synonym Pair = "string option \<times> string"

text \<open>
  \<open>Sectioned.read(text, filter')\<close>: strip every line, keep the lines the filter accepts
  (\<open>filter(None, ...)\<close> keeps the non-empty ones), and pair every line that is not a
  \<open>[header]\<close> with the last header seen.
\<close>

fun read_lines :: "string option \<Rightarrow> string list \<Rightarrow> Pair list" where
  "read_lines name [] = []"
| "read_lines name (v # vs) =
     (if startswith v ''['' \<and> endswith v '']''
      then read_lines (Some (strip_chars (\<lambda>c. c \<in> set ''[]'') v)) vs
      else (name, v) # read_lines name vs)"

definition Sectioned_read :: "string \<Rightarrow> (string \<Rightarrow> bool) option \<Rightarrow> Pair list" where
  "Sectioned_read text filter' =
     read_lines None
       (filter (case filter' of None \<Rightarrow> (\<lambda>l. l \<noteq> []) | Some f \<Rightarrow> f) (map strip (splitlines text)))"

text \<open>\<open>Sectioned.valid\<close>: \<open>line and not line.startswith('#')\<close>.\<close>

definition valid :: "string \<Rightarrow> bool" where
  "valid line = (line \<noteq> [] \<and> \<not> startswith line ''#'')"

text \<open>The three local functions of \<open>_convert_egg_info_reqs_to_simple_reqs\<close>.\<close>

definition make_condition :: "string \<Rightarrow> string" where
  "make_condition name = (if name = [] then [] else ''extra == \"'' @ name @ ''\"'')"

definition quoted_marker :: "string option \<Rightarrow> string" where
  "quoted_marker section =
     (let section' = (case section of None \<Rightarrow> [] | Some s \<Rightarrow> s);
          (extra, sep, markers) = partition_str (CHR '':'') section';
          markers' = (if extra \<noteq> [] \<and> markers \<noteq> [] then ''('' @ markers @ '')'' else markers);
          conditions = filter (\<lambda>c. c \<noteq> []) [markers', make_condition extra]
      in if conditions \<noteq> [] then ''; '' @ join '' and '' conditions else [])"

definition url_req_space :: "string \<Rightarrow> string" where
  "url_req_space req = (if CHR ''@'' \<in> set req then '' '' else [])"

definition convert_egg_info_reqs_to_simple_reqs :: "Pair list \<Rightarrow> string list" where
  "convert_egg_info_reqs_to_simple_reqs sections =
     map (\<lambda>(name, v). v @ url_req_space v @ quoted_marker name) sections"

definition deps_from_requires_text :: "string \<Rightarrow> string list" where
  "deps_from_requires_text source = convert_egg_info_reqs_to_simple_reqs (Sectioned_read source None)"

section \<open>Regular expressions\<close>

text \<open>
  The patterns of the two modules are built from character classes, repetition of a class
  (greedy or lazy), optional and repeated groups, named groups and the end anchor. A
  pattern is a list of items matched from the start of the string (\<open>re.match\<close>) by
  backtracking in Python's order of preference: a greedy repetition tries the longest run
  first, a lazy one the shortest, an optional group is tried before it is skipped.
  \<open>Rpt n\<close> repeats a group at most \<open>n\<close> times; with \<open>n\<close> the length of the
  subject it is the star of a group that consumes at least one character.
  \<open>\w\<close>, \<open>\d\<close> and \<open>\s\<close> are the ASCII classes; the dot excludes the line feed;
  \<open>$\<close> matches at the end and before a final line feed.
\<close>

definition is_digit :: "char \<Rightarrow> bool" where
  "is_digit c = (CHR ''0'' \<le> c \<and> c \<le> CHR ''9'')"

definition is_word :: "char \<Rightarrow> bool" where
  "is_word c = ((CHR ''a'' \<le> c \<and> c \<le> CHR ''z'') \<or> (CHR ''A'' \<le> c \<and> c \<le> CHR ''Z'')
                \<or> is_digit c \<or> c = CHR ''_'')"

definition dot :: "char \<Rightarrow> bool" where
  "dot c = (c \<noteq> CHR 0x0A)"

datatype item =
    Chr "char \<Rightarrow> bool"
  | Many "char \<Rightarrow> bool" bool
  | Opt "item list"
  | Rpt nat "item list"
  | Open string
  | Close string
  | Eos

record captures =
  opened :: "(string \<times> string) list"
  groups :: "(string \<times> string) list"

fun weight :: "item \<Rightarrow> nat" where
  "weight (Opt its) = Suc (sum_list (map weight its))"
| "weight (Rpt n its) = Suc (n * Suc (sum_list (map weight its)))"
| "weight (Chr p) = 1"
| "weight (Many p g) = 1"
| "weight (Open n) = 1"
| "weight (Close n) = 1"
| "weight Eos = 1"

fun first_some :: "'a option list \<Rightarrow> 'a option" where
  "first_some [] = None"
| "first_some (None # xs) = first_some xs"
| "first_some (Some x # xs) = Some x"

definition counts :: "bool \<Rightarrow> nat \<Rightarrow> nat list" where
  "counts greedy n = (if greedy then rev [0..<Suc n] else [0..<Suc n])"

function rmatch :: "item list \<Rightarrow> string \<Rightarrow> captures \<Rightarrow> captures option" where
  "rmatch [] s c = Some c"
| "rmatch (Chr p # r) s c =
     (case s of [] \<Rightarrow> None | x # xs \<Rightarrow> if p x then rmatch r xs c else None)"
| "rmatch (Many p greedy # r) s c =
     first_some (map (\<lambda>k. rmatch r (drop k s) c) (counts greedy (length (takeWhile p s))))"
| "rmatch (Opt its # r) s c =
     (case rmatch (its @ r) s c of Some c' \<Rightarrow> Some c' | None \<Rightarrow> rmatch r s c)"
| "rmatch (Rpt 0 its # r) s c = rmatch r s c"
| "rmatch (Rpt (Suc n) its # r) s c =
     (case rmatch (its @ Rpt n its # r) s c of Some c' \<Rightarrow> Some c' | None \<Rightarrow> rmatch r s c)"
| "rmatch (Open n # r) s c = rmatch r s (c\<lparr>opened := (n, s) # opened c\<rparr>)"
| "rmatch (Close n # r) s c =
     rmatch r s (case map_of (opened c) n of
                   None \<Rightarrow> c
                 | Some s0 \<Rightarrow> c\<lparr>groups := (n, take (length s0 - length s) s0) # groups c\<rparr>)"
| "rmatch (Eos # r) s c = (if s = [] \<or> s = [CHR 0x0A] then rmatch r s c else None)"
  by pat_completeness auto
termination
  by (relation "measure (\<lambda>(its, s, c). sum_list (map weight its))") auto

definition re_match :: "item list \<Rightarrow> string \<Rightarrow> (string \<rightharpoonup> string) option" where
  "re_match pat s = map_option (\<lambda>c. map_of (groups c)) (rmatch pat s \<lparr>opened = [], groups = []\<rparr>)"

definition lit :: "string \<Rightarrow> item list" where
  "lit s = map (\<lambda>c. Chr (\<lambda>x. x = c)) s"

definition plus :: "(char \<Rightarrow> bool) \<Rightarrow> item list" where
  "plus p = [Chr p, Many p True]"

definition grp :: "string \<Rightarrow> item list \<Rightarrow> item list" where
  "grp n its = Open n # its @ [Close n]"

definition word_or_dot :: "char \<Rightarrow> bool" where
  "word_or_dot c = (is_word c \<or> c = CHR ''.'')"

text \<open>\<open>EntryPoint.pattern\<close> and \<open>MODULE\<close> of pkg\_resources.\<close>

definition EntryPoint_pattern :: "item list" where
  "EntryPoint_pattern =
     [Many isspace True]
     @ grp ''name'' [Chr dot, Many dot False] @ [Many isspace True]
     @ lit ''='' @ [Many isspace True]
     @ grp ''module'' (plus word_or_dot) @ [Many isspace True]
     @ [Opt (lit '':'' @ [Many isspace True] @ grp ''attr'' (plus word_or_dot))] @ [Many isspace True]
     @ [Opt (grp ''extras'' (lit ''['' @ [Many dot True] @ lit '']''))] @ [Many isspace True, Eos]"

definition MODULE :: "string \<Rightarrow> bool" where
  "MODULE s = (re_match (plus is_word @ [Rpt (length s) (lit ''.'' @ plus is_word), Eos]) s \<noteq> None)"

section \<open>pkg\_resources: names, requirements, distributions\<close>

text \<open>\<open>str.lower\<close> on ASCII.\<close>

definition lower_char :: "char \<Rightarrow> char" where
  "lower_char c = (if CHR ''A'' \<le> c \<and> c \<le> CHR ''Z'' then char_of (of_char c + (32::nat)) else c)"

definition lower :: "string \<Rightarrow> string" where
  "lower s = map lower_char s"

text \<open>
  \<open>re.sub(cls+, rep, s)\<close>: every maximal run of characters of the class is replaced
  by \<open>rep\<close>. The flag says that the previous character was of the class.
\<close>

fun sub_runs :: "(char \<Rightarrow> bool) \<Rightarrow> string \<Rightarrow> bool \<Rightarrow> string \<Rightarrow> string" where
  "sub_runs p rep in_run [] = []"
| "sub_runs p rep in_run (c # cs) =
     (if p c then (if in_run then sub_runs p rep True cs else rep @ sub_runs p rep True cs)
      else c # sub_runs p rep False cs)"

definition is_alnum :: "char \<Rightarrow> bool" where
  "is_alnum c = ((CHR ''a'' \<le> c \<and> c \<le> CHR ''z'') \<or> (CHR ''A'' \<le> c \<and> c \<le> CHR ''Z'') \<or> is_digit c)"

text \<open>\<open>safe_name\<close>: \<open>re.sub('[^A-Za-z0-9.]+', '-', name)\<close>.\<close>

definition safe_name :: "string \<Rightarrow> string" where
  "safe_name name = sub_runs (\<lambda>c. \<not> (is_alnum c \<or> c = CHR ''.'')) ''-'' False name"

text \<open>\<open>safe_extra\<close>: \<open>re.sub('[^A-Za-z0-9.-]+', '_', extra).lower()\<close>.\<close>

definition safe_extra :: "string \<Rightarrow> string" where
  "safe_extra extra =
     lower (sub_runs (\<lambda>c. \<not> (is_alnum c \<or> c = CHR ''.'' \<or> c = CHR ''-'')) ''_'' False extra)"

text \<open>\<open>s.replace(a, b)\<close> for single characters.\<close>

definition replace_char :: "char \<Rightarrow> char \<Rightarrow> string \<Rightarrow> string" where
  "replace_char a b s = map (\<lambda>c. if c = a then b else c) s"

text \<open>
  A \<open>Requirement\<close> after \<open>__init__\<close>. The specifier set is the list of its
  (operator, version) clauses, the marker is its text. \<open>hashCmp\<close> is computed once in
  \<open>__init__\<close> and decides equality and hashing; \<open>req_key\<close> is the attribute \<open>key\<close>,
  which \<open>WorkingSet.find\<close> may reassign later without touching \<open>hashCmp\<close>.
\<close>

type_synonym hashCmp_t =
  "string \<times> string option \<times> (string \<times> string) set \<times> string set \<times> string option"

record Requirement =
  req_project_name :: string
  req_key :: string
  url :: "string option"
  specifier :: "(string \<times> string) list"
  req_extras :: "string list"
  marker :: "string option"
  hashCmp :: hashCmp_t

text \<open>
  What \<open>packaging.requirements.Requirement.__init__\<close> leaves on the object: the
  name, the url, the extras in the order in which the set of extras iterates, the specifier
  and the marker.
\<close>

record parsed_requirement =
  p_name :: string
  p_url :: "string option"
  p_extras :: "string list"
  p_specifier :: "(string \<times> string) list"
  p_marker :: "string option"

text \<open>\<open>Requirement.__init__\<close> after the call of the base class.\<close>

definition Requirement_init :: "parsed_requirement \<Rightarrow> Requirement" where
  "Requirement_init p =
     (let project_name = safe_name (p_name p);
          key = lower project_name;
          extras = map safe_extra (p_extras p)
      in \<lparr>req_project_name = project_name, req_key = key, url = p_url p,
          specifier = p_specifier p, req_extras = extras, marker = p_marker p,
          hashCmp = (key, p_url p, set (p_specifier p), set extras, p_marker p)\<rparr>)"

text \<open>\<open>Requirement.specs\<close>: the (operator, version) pairs of the specifier.\<close>

definition specs :: "Requirement \<Rightarrow> (string \<times> string) list" where
  "specs r = specifier r"

text \<open>
  A \<open>Distribution\<close>. \<open>version\<close> is what the property \<open>version\<close> gives:
  \<open>None\<close> when neither the constructor nor the metadata has one and the property raises
  \<open>ValueError\<close>. \<open>dep_map\<close> is the cached \<open>_dep_map\<close>, from an extra (\<open>None\<close>
  for the unconditional requirements) to its requirements.
\<close>

record Distribution =
  project_name :: string
  version :: "string option"
  py_version :: "string option"
  platform :: "string option"
  location :: "string option"
  precedence :: int
  dep_map :: "string option \<rightharpoonup> Requirement list"

definition key :: "Distribution \<Rightarrow> string" where
  "key d = lower (project_name d)"

datatype error =
    VersionConflict Distribution Requirement
  | ContextualVersionConflict Distribution Requirement "string set"
  | DistributionNotFound Requirement "string set option"
  | UnknownExtra
  | ValueError
  | TypeError
  | InvalidVersion
  | MarkerError
  | OSError
  | FileExistsError
  | KeyError
  | ExtractionError
  | AttributeError
  | AssertionError
  | NameError

text \<open>
  The packaging library, the interpreter and the file system scan are taken as parameters:
  \<open>spec_contains spec v pre\<close> is \<open>SpecifierSet.contains(v, prereleases=pre)\<close>,
  \<open>marker_evaluate m extra\<close> is \<open>Marker.evaluate({'extra': extra})\<close> on the marker with
  text \<open>m\<close>, \<open>parsed_version\<close> is the version object that
  \<open>_forgiving_parsed_version\<close> returns for a version text (its fallback makes it total),
  \<open>find_distributions\<close> lists the distributions of a path entry,
  \<open>supported_platform\<close> and \<open>PY_MAJOR\<close> are the defaults of \<open>Environment\<close>.
\<close>

record 'v packaging =
  spec_contains :: "(string \<times> string) list \<Rightarrow> string \<Rightarrow> bool \<Rightarrow> error + bool"
  marker_evaluate :: "string \<Rightarrow> string \<Rightarrow> error + bool"
  parsed_version :: "string \<Rightarrow> 'v"
  find_distributions :: "string \<Rightarrow> Distribution list"
  supported_platform :: string
  PY_MAJOR :: string
  sys_path :: "string list"

text \<open>
  \<open>Requirement.__contains__\<close>: the item is a \<open>Distribution\<close> (\<open>Inl\<close>) or a version
  (\<open>Inr\<close>).
\<close>

definition Requirement_contains ::
  "'v packaging \<Rightarrow> Requirement \<Rightarrow> Distribution + string \<Rightarrow> error + bool" where
  "Requirement_contains lib r item =
     (case item of
        Inl d \<Rightarrow>
          if key d \<noteq> req_key r then Inr False
          else (case version d of
                  None \<Rightarrow> Inl ValueError
                | Some v \<Rightarrow> spec_contains lib (specifier r) v True)
      | Inr v \<Rightarrow> spec_contains lib (specifier r) v True)"

text \<open>\<open>dist in req\<close>.\<close>

definition dist_in_req :: "'v packaging \<Rightarrow> Distribution \<Rightarrow> Requirement \<Rightarrow> error + bool" where
  "dist_in_req lib d r = Requirement_contains lib r (Inl d)"

text \<open>\<open>Distribution.requires\<close>.\<close>

fun requires_extras :: "(string option \<rightharpoonup> Requirement list) \<Rightarrow> string list \<Rightarrow> error + Requirement list" where
  "requires_extras dm [] = Inr []"
| "requires_extras dm (ext # exts) =
     (case dm (Some (safe_extra ext)) of
        None \<Rightarrow> Inl UnknownExtra
      | Some rs \<Rightarrow> (case requires_extras dm exts of Inl e \<Rightarrow> Inl e | Inr rest \<Rightarrow> Inr (rs @ rest)))"

definition requires :: "Distribution \<Rightarrow> string list \<Rightarrow> error + Requirement list" where
  "requires d extras =
     (case requires_extras (dep_map d) extras of
        Inl e \<Rightarrow> Inl e
      | Inr rest \<Rightarrow> Inr ((case dep_map d None of None \<Rightarrow> [] | Some rs \<Rightarrow> rs) @ rest))"

definition has_version :: "Distribution \<Rightarrow> bool" where
  "has_version d = (version d \<noteq> None)"

text \<open>
  \<open>Distribution.hashcmp\<close>: the tuple that orders and identifies distributions. A
  missing \<open>py_version\<close> or \<open>platform\<close> counts as the empty string; the location is used
  as it is.
\<close>

type_synonym 'v hashcmp_t = "'v \<times> int \<times> string \<times> string option \<times> string \<times> string"

definition hashcmp :: "'v packaging \<Rightarrow> Distribution \<Rightarrow> error + 'v hashcmp_t" where
  "hashcmp lib d =
     (case version d of
        None \<Rightarrow> Inl ValueError
      | Some v \<Rightarrow> Inr (parsed_version lib v, precedence d, key d, location d,
                       (case py_version d of None \<Rightarrow> [] | Some p \<Rightarrow> p),
                       (case platform d of None \<Rightarrow> [] | Some p \<Rightarrow> p)))"

text \<open>
  \<open>a < b\<close> on two such tuples: Python looks for the first position where the two
  differ and compares there; \<open>None < 'x'\<close> and \<open>'x' < None\<close> raise \<open>TypeError\<close>.
\<close>

fun tuple_lt :: "('v::linorder) hashcmp_t \<Rightarrow> 'v hashcmp_t \<Rightarrow> error + bool" where
  "tuple_lt (v1, p1, k1, l1, y1, f1) (v2, p2, k2, l2, y2, f2) =
     (if v1 \<noteq> v2 then Inr (v1 < v2)
      else if p1 \<noteq> p2 then Inr (p1 < p2)
      else if k1 \<noteq> k2 then Inr (k1 < k2)
      else if l1 \<noteq> l2 then
        (case (l1, l2) of (Some a, Some b) \<Rightarrow> Inr (a < b) | _ \<Rightarrow> Inl TypeError)
      else if y1 \<noteq> y2 then Inr (y1 < y2)
      else Inr (f1 < f2))"

text \<open>\<open>Distribution.__eq__\<close>: equal tuples.\<close>

definition dist_eq :: "'v packaging \<Rightarrow> Distribution \<Rightarrow> Distribution \<Rightarrow> error + bool" where
  "dist_eq lib a b =
     (case hashcmp lib a of
        Inl e \<Rightarrow> Inl e
      | Inr ha \<Rightarrow> (case hashcmp lib b of Inl e \<Rightarrow> Inl e | Inr hb \<Rightarrow> Inr (ha = hb)))"

text \<open>\<open>dist in dists\<close> on a list: the elements are compared in order.\<close>

fun dist_in_list :: "'v packaging \<Rightarrow> Distribution \<Rightarrow> Distribution list \<Rightarrow> error + bool" where
  "dist_in_list lib d [] = Inr False"
| "dist_in_list lib d (x # xs) =
     (case dist_eq lib x d of
        Inl e \<Rightarrow> Inl e
      | Inr True \<Rightarrow> Inr True
      | Inr False \<Rightarrow> dist_in_list lib d xs)"

section \<open>pkg\_resources: Environment\<close>

text \<open>\<open>int(s)\<close> on a run of ASCII digits.\<close>

definition digit_val :: "char \<Rightarrow> nat" where
  "digit_val c = of_char c - of_char (CHR ''0'')"

definition int_of_digits :: "string \<Rightarrow> nat" where
  "int_of_digits s = foldl (\<lambda>n c. 10 * n + digit_val c) 0 s"

text \<open>
  \<open>macosVersionString\<close> is \<open>macosx-(\d+)\.(\d+)-(.*)\<close> and \<open>darwinVersionString\<close> is
  \<open>darwin-(\d+)\.(\d+)\.(\d+)-(.*)\<close>; the groups are named by their numbers.
\<close>

definition macosVersionString :: "item list" where
  "macosVersionString =
     lit ''macosx-'' @ grp ''1'' (plus is_digit) @ lit ''.'' @ grp ''2'' (plus is_digit)
     @ lit ''-'' @ grp ''3'' [Many dot True]"

definition darwinVersionString :: "item list" where
  "darwinVersionString =
     lit ''darwin-'' @ grp ''1'' (plus is_digit) @ lit ''.'' @ grp ''2'' (plus is_digit)
     @ lit ''.'' @ grp ''3'' (plus is_digit) @ lit ''-'' @ grp ''4'' [Many dot True]"

text \<open>A group that took part in the match.\<close>

definition group :: "(string \<rightharpoonup> string) \<Rightarrow> string \<Rightarrow> string" where
  "group m n = (case m n of None \<Rightarrow> [] | Some s \<Rightarrow> s)"

definition compatible_platforms :: "string option \<Rightarrow> string option \<Rightarrow> bool" where
  "compatible_platforms provided required =
     (case (provided, required) of
        (None, _) \<Rightarrow> True
      | (_, None) \<Rightarrow> True
      | (Some prov, Some req) \<Rightarrow>
          if prov = req then True
          else (case re_match macosVersionString req of
                  Some reqMac \<Rightarrow>
                    (case re_match macosVersionString prov of
                       None \<Rightarrow>
                         (case re_match darwinVersionString prov of
                            Some provDarwin \<Rightarrow>
                              (let dversion = int_of_digits (group provDarwin ''1'');
                                   macosversion = group reqMac ''1'' @ ''.'' @ group reqMac ''2''
                               in (dversion = 7 \<and> macosversion \<ge> ''10.3'')
                                  \<or> (dversion = 8 \<and> macosversion \<ge> ''10.4''))
                          | None \<Rightarrow> False)
                     | Some provMac \<Rightarrow>
                         if group provMac ''1'' \<noteq> group reqMac ''1''
                            \<or> group provMac ''3'' \<noteq> group reqMac ''3''
                         then False
                         else if int_of_digits (group provMac ''2'') > int_of_digits (group reqMac ''2'')
                         then False
                         else True)
                | None \<Rightarrow> False))"

text \<open>
  An \<open>Environment\<close>: \<open>_distmap\<close> keeps its keys in insertion order, so it is an
  association list.
\<close>

record Environment =
  distmap :: "(string \<times> Distribution list) list"
  env_platform :: "string option"
  env_python :: "string option"

definition can_add :: "Environment \<Rightarrow> Distribution \<Rightarrow> bool" where
  "can_add env dist =
     ((env_python env = None \<or> py_version dist = None \<or> py_version dist = env_python env)
      \<and> compatible_platforms (platform dist) (env_platform env))"

text \<open>\<open>Environment.__getitem__\<close>.\<close>

definition getitem :: "Environment \<Rightarrow> string \<Rightarrow> Distribution list" where
  "getitem env name =
     (case map_of (distmap env) (lower name) of None \<Rightarrow> [] | Some ds \<Rightarrow> ds)"

text \<open>
  \<open>dists.sort(key=operator.attrgetter('hashcmp'), reverse=True)\<close>. The keys are
  computed first; then the list is sorted in descending order, equal keys keeping their
  order. The sort is written as an insertion sort on (key, distribution) pairs: a stable
  sort has one result, so this is the list that Python's sort returns whenever the keys it
  compares are comparable, and an exception of a comparison ends the sort.
\<close>

fun keyed :: "'v packaging \<Rightarrow> Distribution list \<Rightarrow> error + ('v hashcmp_t \<times> Distribution) list" where
  "keyed lib [] = Inr []"
| "keyed lib (d # ds) =
     (case hashcmp lib d of
        Inl e \<Rightarrow> Inl e
      | Inr h \<Rightarrow> (case keyed lib ds of Inl e \<Rightarrow> Inl e | Inr r \<Rightarrow> Inr ((h, d) # r)))"

fun insert_desc ::
  "('v::linorder) hashcmp_t \<times> Distribution \<Rightarrow> ('v hashcmp_t \<times> Distribution) list
    \<Rightarrow> error + ('v hashcmp_t \<times> Distribution) list" where
  "insert_desc x [] = Inr [x]"
| "insert_desc x (y # ys) =
     (case tuple_lt (fst x) (fst y) of
        Inl e \<Rightarrow> Inl e
      | Inr True \<Rightarrow> (case insert_desc x ys of Inl e \<Rightarrow> Inl e | Inr r \<Rightarrow> Inr (y # r))
      | Inr False \<Rightarrow> Inr (x # y # ys))"

fun sort_pairs_desc ::
  "(('v::linorder) hashcmp_t \<times> Distribution) list \<Rightarrow> error + ('v hashcmp_t \<times> Distribution) list" where
  "sort_pairs_desc [] = Inr []"
| "sort_pairs_desc (x # xs) =
     (case sort_pairs_desc xs of Inl e \<Rightarrow> Inl e | Inr r \<Rightarrow> insert_desc x r)"

definition sort_desc :: "('v::linorder) packaging \<Rightarrow> Distribution list \<Rightarrow> error + Distribution list" where
  "sort_desc lib ds =
     (case keyed lib ds of
        Inl e \<Rightarrow> Inl e
      | Inr ks \<Rightarrow> (case sort_pairs_desc ks of Inl e \<Rightarrow> Inl e | Inr r \<Rightarrow> Inr (map snd r)))"

text \<open>\<open>d[k] = v\<close> on an insertion-ordered dictionary.\<close>

fun dict_set :: "'k \<Rightarrow> 'a \<Rightarrow> ('k \<times> 'a) list \<Rightarrow> ('k \<times> 'a) list" where
  "dict_set k v [] = [(k, v)]"
| "dict_set k v ((k', v') # kvs) = (if k = k' then (k, v) # kvs else (k', v') # dict_set k v kvs)"

text \<open>
  \<open>Environment.add\<close>. \<open>setdefault\<close> creates the key's list, the distribution is
  appended unless an equal one is there, and the list is sorted in place. The environment
  is an object that \<open>add\<close> changes, so the result is the exception, if one is raised,
  with the environment as the call leaves it. When the sort raises, the distribution has
  been appended and stays in the list; the list is taken to keep the order it had before
  the sort, which is the order in which Python leaves a list of two.
\<close>

definition add ::
  "('v::linorder) packaging \<Rightarrow> Environment \<Rightarrow> Distribution \<Rightarrow> error option \<times> Environment" where
  "add lib env dist =
     (if can_add env dist \<and> has_version dist then
        (let dists = (case map_of (distmap env) (key dist) of None \<Rightarrow> [] | Some ds \<Rightarrow> ds);
             env1 = env\<lparr>distmap := dict_set (key dist) dists (distmap env)\<rparr>
         in case dist_in_list lib dist dists of
              Inl e \<Rightarrow> (Some e, env1)
            | Inr True \<Rightarrow> (None, env1)
            | Inr False \<Rightarrow>
                (case sort_desc lib (dists @ [dist]) of
                   Inl e \<Rightarrow>
                     (Some e, env\<lparr>distmap := dict_set (key dist) (dists @ [dist]) (distmap env)\<rparr>)
                 | Inr sorted_dists \<Rightarrow>
                     (None, env\<lparr>distmap := dict_set (key dist) sorted_dists (distmap env)\<rparr>)))
      else (None, env))"

text \<open>
  Adding a list of distributions one after the other, as the loops of \<open>scan\<close> and
  \<open>__iadd__\<close> do; the first exception ends the loop.
\<close>

fun add_all ::
  "('v::linorder) packaging \<Rightarrow> Environment \<Rightarrow> Distribution list \<Rightarrow> error option \<times> Environment" where
  "add_all lib env [] = (None, env)"
| "add_all lib env (d # ds) =
     (case add lib env d of (Some e, env') \<Rightarrow> (Some e, env') | (None, env') \<Rightarrow> add_all lib env' ds)"

text \<open>\<open>Environment.scan\<close>; without a search path it scans \<open>sys.path\<close>.\<close>

definition scan ::
  "('v::linorder) packaging \<Rightarrow> Environment \<Rightarrow> string list option \<Rightarrow> error option \<times> Environment" where
  "scan lib env search_path =
     add_all lib env
       (concat (map (find_distributions lib) (case search_path of None \<Rightarrow> sys_path lib | Some p \<Rightarrow> p)))"

text \<open>\<open>Environment.__init__\<close>: a constructor that raises yields no object.\<close>

definition Environment_init ::
  "('v::linorder) packaging \<Rightarrow> string list option \<Rightarrow> string option \<Rightarrow> string option \<Rightarrow> error + Environment" where
  "Environment_init lib search_path platform' python =
     (case scan lib \<lparr>distmap = [], env_platform = platform', env_python = python\<rparr> search_path of
        (Some e, env) \<Rightarrow> Inl e
      | (None, env) \<Rightarrow> Inr env)"

text \<open>\<open>Environment.__iter__\<close>: the keys whose list is not empty.\<close>

definition iter :: "Environment \<Rightarrow> string list" where
  "iter env = filter (\<lambda>k. getitem env k \<noteq> []) (map fst (distmap env))"

text \<open>
  \<open>Environment.__iadd__\<close> and \<open>__add__\<close>; the other operand is a \<open>Distribution\<close>
  (\<open>Inl\<close>) or an \<open>Environment\<close> (\<open>Inr\<close>). \<open>__iadd__\<close> changes the environment in
  place; an exception inside \<open>__add__\<close> leaves it with no result.
\<close>

definition iadd ::
  "('v::linorder) packaging \<Rightarrow> Environment \<Rightarrow> Distribution + Environment
    \<Rightarrow> error option \<times> Environment" where
  "iadd lib env other =
     (case other of
        Inl d \<Rightarrow> add lib env d
      | Inr env2 \<Rightarrow> add_all lib env (concat (map (getitem env2) (iter env2))))"

definition env_add ::
  "('v::linorder) packaging \<Rightarrow> Environment \<Rightarrow> Distribution + Environment \<Rightarrow> error + Environment" where
  "env_add lib env other =
     (case Environment_init lib (Some []) None None of
        Inl e \<Rightarrow> Inl e
      | Inr new \<Rightarrow>
          (case iadd lib new (Inr env) of
             (Some e, new') \<Rightarrow> Inl e
           | (None, new') \<Rightarrow>
               (case iadd lib new' other of
                  (Some e, new'') \<Rightarrow> Inl e
                | (None, new'') \<Rightarrow> Inr new'')))"

section \<open>pkg\_resources: WorkingSet and resolution\<close>

record WorkingSet =
  entries :: "string list"
  entry_keys :: "string option \<rightharpoonup> string list"
  by_key :: "string \<rightharpoonup> Distribution"
  normalized_to_canonical_keys :: "string \<rightharpoonup> string"

text \<open>\<open>WorkingSet([])\<close>.\<close>

definition empty_WorkingSet :: WorkingSet where
  "empty_WorkingSet =
     \<lparr>entries = [], entry_keys = Map.empty, by_key = Map.empty,
      normalized_to_canonical_keys = Map.empty\<rparr>"

text \<open>The loop of \<open>find\<close>: the first candidate under which a distribution is active.\<close>

fun first_active :: "(string \<rightharpoonup> Distribution) \<Rightarrow> string list \<Rightarrow> (string \<times> Distribution) option" where
  "first_active m [] = None"
| "first_active m (candidate # cs) =
     (case m candidate of Some dist \<Rightarrow> Some (candidate, dist) | None \<Rightarrow> first_active m cs)"

text \<open>
  \<open>WorkingSet.find\<close>. The requirement is an object that \<open>find\<close> changes
  (\<open>req.key = candidate\<close>), so it is returned with the result, also when \<open>find\<close> raises.
\<close>

definition find_candidates :: "WorkingSet \<Rightarrow> Requirement \<Rightarrow> string list" where
  "find_candidates ws req =
     filter (\<lambda>c. c \<noteq> [])
       (List.map_filter id
          [Some (req_key req),
           normalized_to_canonical_keys ws (req_key req),
           Some (replace_char (CHR ''.'') (CHR ''-'') (safe_name (req_key req)))])"

definition find :: "'v packaging \<Rightarrow> WorkingSet \<Rightarrow> Requirement \<Rightarrow> Requirement \<times> (error + Distribution option)" where
  "find lib ws req =
     (case first_active (by_key ws) (find_candidates ws req) of
        None \<Rightarrow> (req, Inr None)
      | Some (candidate, dist) \<Rightarrow>
          (let req' = req\<lparr>req_key := candidate\<rparr>
           in case dist_in_req lib dist req' of
                Inl e \<Rightarrow> (req', Inl e)
              | Inr True \<Rightarrow> (req', Inr (Some dist))
              | Inr False \<Rightarrow> (req', Inl (VersionConflict dist req'))))"

text \<open>\<open>Environment.obtain\<close>: the installer hook, when there is one.\<close>

definition env_obtain :: "Requirement \<Rightarrow> (Requirement \<Rightarrow> Distribution option) option \<Rightarrow> Distribution option" where
  "env_obtain requirement installer = (case installer of None \<Rightarrow> None | Some f \<Rightarrow> f requirement)"

text \<open>The loop of \<open>best_match\<close> over the candidates of the environment.\<close>

fun first_in_req :: "'v packaging \<Rightarrow> Distribution list \<Rightarrow> Requirement \<Rightarrow> error + Distribution option" where
  "first_in_req lib [] req = Inr None"
| "first_in_req lib (dist # ds) req =
     (case dist_in_req lib dist req of
        Inl e \<Rightarrow> Inl e
      | Inr True \<Rightarrow> Inr (Some dist)
      | Inr False \<Rightarrow> first_in_req lib ds req)"

definition is_VersionConflict :: "error \<Rightarrow> bool" where
  "is_VersionConflict e =
     (case e of VersionConflict d r \<Rightarrow> True | ContextualVersionConflict d r s \<Rightarrow> True | _ \<Rightarrow> False)"

definition best_match ::
  "'v packaging \<Rightarrow> Environment \<Rightarrow> Requirement \<Rightarrow> WorkingSet
    \<Rightarrow> (Requirement \<Rightarrow> Distribution option) option \<Rightarrow> bool
    \<Rightarrow> Requirement \<times> (error + Distribution option)" where
  "best_match lib env req working_set installer replace_conflicting =
     (let (req', found) = find lib working_set req;
          search = (case first_in_req lib (getitem env (req_key req')) req' of
                      Inl e \<Rightarrow> Inl e
                    | Inr (Some dist) \<Rightarrow> Inr (Some dist)
                    | Inr None \<Rightarrow> Inr (env_obtain req' installer))
      in case found of
           Inl e \<Rightarrow>
             if is_VersionConflict e \<and> replace_conflicting then (req', search) else (req', Inl e)
         | Inr (Some dist) \<Rightarrow> (req', Inr (Some dist))
         | Inr None \<Rightarrow> (req', search))"

text \<open>The extras recorded in \<open>_ReqExtras\<close> as demanding a requirement: \<open>self.get(req, ())\<close>.\<close>

definition recorded_extras :: "(hashCmp_t \<rightharpoonup> string list) \<Rightarrow> Requirement \<Rightarrow> string list" where
  "recorded_extras m req = (case m (hashCmp req) of None \<Rightarrow> [] | Some es \<Rightarrow> es)"

text \<open>
  \<open>_ReqExtras.markers_pass\<close>. The dictionary is keyed by requirements, that is by
  their \<open>hashCmp\<close>. \<open>any\<close> stops at the first extra under which the marker holds.
\<close>

fun any_evaluate :: "'v packaging \<Rightarrow> string \<Rightarrow> string list \<Rightarrow> error + bool" where
  "any_evaluate lib m [] = Inr False"
| "any_evaluate lib m (extra # es) =
     (case marker_evaluate lib m extra of
        Inl e \<Rightarrow> Inl e
      | Inr True \<Rightarrow> Inr True
      | Inr False \<Rightarrow> any_evaluate lib m es)"

definition markers_pass ::
  "'v packaging \<Rightarrow> (hashCmp_t \<rightharpoonup> string list) \<Rightarrow> Requirement \<Rightarrow> string list option \<Rightarrow> error + bool" where
  "markers_pass lib req_extras_map req extras =
     (case marker req of
        None \<Rightarrow> Inr True
      | Some m \<Rightarrow>
          any_evaluate lib m
            (recorded_extras req_extras_map req
             @ (case extras of None \<Rightarrow> [[]] | Some [] \<Rightarrow> [[]] | Some es \<Rightarrow> es)))"

text \<open>\<open>VersionConflict.with_context\<close>.\<close>

definition with_context :: "Distribution \<Rightarrow> Requirement \<Rightarrow> string set \<Rightarrow> error" where
  "with_context dist req required_by =
     (if required_by = {} then VersionConflict dist req
      else ContextualVersionConflict dist req required_by)"

text \<open>
  \<open>WorkingSet._resolve_dist\<close>. It returns the distribution with the requirement
  (whose key \<open>find\<close> may have changed) and the dictionaries and the list it updates:
  \<open>best\<close> and \<open>to_activate\<close>. \<open>required_by\<close> is only read on the paths that return.
  An environment built here is local to the call.
\<close>

definition resolve_dist ::
  "('v::linorder) packaging \<Rightarrow> WorkingSet \<Rightarrow> Requirement \<Rightarrow> (string \<rightharpoonup> Distribution) \<Rightarrow> bool
    \<Rightarrow> Environment option \<Rightarrow> (Requirement \<Rightarrow> Distribution option) option
    \<Rightarrow> (hashCmp_t \<rightharpoonup> string set) \<Rightarrow> Distribution list
    \<Rightarrow> error + (Distribution \<times> Requirement \<times> (string \<rightharpoonup> Distribution) \<times> Distribution list)" where
  "resolve_dist lib self req best replace_conflicting env installer required_by to_activate =
     (let check = (\<lambda>dist req' best' to_activate'.
            case dist_in_req lib dist req' of
              Inl e \<Rightarrow> Inl e
            | Inr False \<Rightarrow>
                Inl (with_context dist req'
                       (case required_by (hashCmp req') of None \<Rightarrow> {} | Some s \<Rightarrow> s))
            | Inr True \<Rightarrow> Inr (dist, req', best', to_activate'));
          lookup = (\<lambda>env' ws.
            case best_match lib env' req ws installer replace_conflicting of
              (req', Inl e) \<Rightarrow> Inl e
            | (req', Inr None) \<Rightarrow> Inl (DistributionNotFound req' (required_by (hashCmp req')))
            | (req', Inr (Some dist)) \<Rightarrow>
                check dist req' (best(req_key req' \<mapsto> dist)) (to_activate @ [dist]))
      in case best (req_key req) of
           Some dist \<Rightarrow> check dist req best to_activate
         | None \<Rightarrow>
             (case by_key self (req_key req) of
                None \<Rightarrow>
                  (case env of
                     Some env' \<Rightarrow> lookup env' self
                   | None \<Rightarrow>
                       (case Environment_init lib (Some (entries self))
                               (Some (supported_platform lib)) (Some (PY_MAJOR lib)) of
                          Inl e \<Rightarrow> Inl e
                        | Inr env' \<Rightarrow> lookup env' self))
              | Some dist \<Rightarrow>
                  (case dist_in_req lib dist req of
                     Inl e \<Rightarrow> Inl e
                   | Inr inside \<Rightarrow>
                       if \<not> inside \<and> replace_conflicting then
                         (case env of
                            Some env' \<Rightarrow> lookup env' self
                          | None \<Rightarrow>
                              (case Environment_init lib (Some [])
                                      (Some (supported_platform lib)) (Some (PY_MAJOR lib)) of
                                 Inl e \<Rightarrow> Inl e
                               | Inr env' \<Rightarrow> lookup env' empty_WorkingSet))
                       else check dist req best (to_activate @ [dist]))))"

text \<open>The local state of \<open>WorkingSet.resolve\<close>.\<close>

record resolve_state =
  requirements :: "Requirement list"
  processed :: "hashCmp_t set"
  best :: "string \<rightharpoonup> Distribution"
  to_activate :: "Distribution list"
  req_extras_map :: "hashCmp_t \<rightharpoonup> string list"
  required_by :: "hashCmp_t \<rightharpoonup> string set"

text \<open>
  Registering the new requirements: \<open>required_by[new_requirement].add(req.project_name)\<close>
  and \<open>req_extras[new_requirement] = req.extras\<close>.
\<close>

definition register_required_by ::
  "string \<Rightarrow> Requirement list \<Rightarrow> (hashCmp_t \<rightharpoonup> string set) \<Rightarrow> (hashCmp_t \<rightharpoonup> string set)" where
  "register_required_by name new_requirements m =
     fold (\<lambda>nr m'. m'(hashCmp nr \<mapsto> insert name (case m' (hashCmp nr) of None \<Rightarrow> {} | Some s \<Rightarrow> s)))
       new_requirements m"

definition register_req_extras ::
  "string list \<Rightarrow> Requirement list \<Rightarrow> (hashCmp_t \<rightharpoonup> string list) \<Rightarrow> (hashCmp_t \<rightharpoonup> string list)" where
  "register_req_extras extras new_requirements m =
     fold (\<lambda>nr m'. m'(hashCmp nr \<mapsto> extras)) new_requirements m"

text \<open>
  One pass of the \<open>while\<close> loop of \<open>resolve\<close> on the requirement popped from the
  front of the list.
\<close>

definition resolve_step ::
  "('v::linorder) packaging \<Rightarrow> WorkingSet \<Rightarrow> Environment option
    \<Rightarrow> (Requirement \<Rightarrow> Distribution option) option \<Rightarrow> bool \<Rightarrow> string list option
    \<Rightarrow> Requirement \<Rightarrow> resolve_state \<Rightarrow> error + resolve_state" where
  "resolve_step lib self env installer replace_conflicting extras req st =
     (if hashCmp req \<in> processed st then Inr st
      else case markers_pass lib (req_extras_map st) req extras of
             Inl e \<Rightarrow> Inl e
           | Inr False \<Rightarrow> Inr st
           | Inr True \<Rightarrow>
               (case resolve_dist lib self req (best st) replace_conflicting env installer
                       (required_by st) (to_activate st) of
                  Inl e \<Rightarrow> Inl e
                | Inr (dist, req', best', to_activate') \<Rightarrow>
                    (case requires dist (req_extras req') of
                       Inl e \<Rightarrow> Inl e
                     | Inr deps \<Rightarrow>
                         (let new_requirements = rev deps
                          in Inr \<lparr>requirements = requirements st @ new_requirements,
                                  processed = insert (hashCmp req') (processed st),
                                  best = best',
                                  to_activate = to_activate',
                                  req_extras_map =
                                    register_req_extras (req_extras req') new_requirements (req_extras_map st),
                                  required_by =
                                    register_required_by (req_project_name req') new_requirements
                                      (required_by st)\<rparr>))))"

text \<open>
  The loop runs while requirements are left. With an installer that keeps producing
  distributions with new requirements it need not end, so the loop is a partial function:
  \<open>None\<close> is the run that does not return.
\<close>

partial_function (option) resolve_loop ::
  "('v::linorder) packaging \<Rightarrow> WorkingSet \<Rightarrow> Environment option
    \<Rightarrow> (Requirement \<Rightarrow> Distribution option) option \<Rightarrow> bool \<Rightarrow> string list option
    \<Rightarrow> resolve_state \<Rightarrow> (error + Distribution list) option" where
  "resolve_loop lib self env installer replace_conflicting extras st =
     (case requirements st of
        [] \<Rightarrow> Some (Inr (to_activate st))
      | req # rest \<Rightarrow>
          (case resolve_step lib self env installer replace_conflicting extras req
                  (st\<lparr>requirements := rest\<rparr>) of
             Inl e \<Rightarrow> Some (Inl e)
           | Inr st' \<Rightarrow> resolve_loop lib self env installer replace_conflicting extras st'))"

text \<open>\<open>WorkingSet.resolve\<close>: the stack is the reversed list of the requirements.\<close>

definition resolve ::
  "('v::linorder) packaging \<Rightarrow> WorkingSet \<Rightarrow> Requirement list \<Rightarrow> Environment option
    \<Rightarrow> (Requirement \<Rightarrow> Distribution option) option \<Rightarrow> bool \<Rightarrow> string list option
    \<Rightarrow> (error + Distribution list) option" where
  "resolve lib self reqs env installer replace_conflicting extras =
     resolve_loop lib self env installer replace_conflicting extras
       \<lparr>requirements = rev reqs, processed = {}, best = Map.empty, to_activate = [],
        req_extras_map = Map.empty, required_by = Map.empty\<rparr>"

section \<open>An instance of the parameters\<close>

text \<open>
  To run the model on examples the parameters are instantiated for release versions:
  a version is a dotted sequence of numbers, compared number by number after dropping
  final zeros; a specifier clause compares with one of the six operators; a marker of the
  form \<open>extra == "name"\<close> holds under the extra \<open>name\<close>. No path entry holds a
  distribution.
\<close>

definition release :: "string \<Rightarrow> nat list" where
  "release v = rev (dropWhile (\<lambda>n. n = 0) (rev (map int_of_digits (split (CHR ''.'') v))))"

definition clause_holds :: "nat list \<Rightarrow> string \<times> string \<Rightarrow> bool" where
  "clause_holds v c =
     (let w = release (snd c); operator = fst c
      in if operator = ''>='' then v \<ge> w
         else if operator = ''<='' then v \<le> w
         else if operator = ''>'' then v > w
         else if operator = ''<'' then v < w
         else if operator = ''=='' then v = w
         else if operator = ''!='' then v \<noteq> w
         else False)"

definition release_packaging :: "(nat list) packaging" where
  "release_packaging =
     \<lparr>spec_contains = (\<lambda>spec v pre. Inr (list_all (clause_holds (release v)) spec)),
      marker_evaluate = (\<lambda>m extra. Inr (m = ''extra == \"'' @ extra @ ''\"'')),
      parsed_version = release,
      find_distributions = (\<lambda>entry. []),
      supported_platform = ''linux-x86_64'',
      PY_MAJOR = ''3.12'',
      sys_path = []\<rparr>"

text \<open>The requirement \<open>pkg>=1.0\<close> and distributions of the project \<open>pkg\<close>.\<close>

definition pkg_ge_1_0 :: Requirement where
  "pkg_ge_1_0 =
     Requirement_init \<lparr>p_name = ''pkg'', p_url = None, p_extras = [],
                       p_specifier = [(''>='', ''1.0'')], p_marker = None\<rparr>"

definition pkg_dist :: "string \<Rightarrow> string option \<Rightarrow> Distribution" where
  "pkg_dist v loc =
     \<lparr>project_name = ''pkg'', version = Some v, py_version = None, platform = None,
      location = loc, precedence = 3, dep_map = Map.empty\<rparr>"

text \<open>The requirement \<open>pkg; extra == ""\<close>, whose marker holds under the empty extra only.\<close>

definition pkg_base_only :: Requirement where
  "pkg_base_only =
     Requirement_init \<lparr>p_name = ''pkg'', p_url = None, p_extras = [],
                       p_specifier = [], p_marker = Some ''extra == \"\"''\<rparr>"

text \<open>
  The requirement \<open>app[test]\<close>, the requirement \<open>pkg; extra == "test"\<close>, and a
  distribution of \<open>app\<close> that lists the latter among the requirements of its extra
  \<open>test\<close>, as the metadata of a wheel does.
\<close>

definition app_test :: Requirement where
  "app_test =
     Requirement_init \<lparr>p_name = ''app'', p_url = None, p_extras = [''test''],
                       p_specifier = [], p_marker = None\<rparr>"

definition pkg_if_test :: Requirement where
  "pkg_if_test =
     Requirement_init \<lparr>p_name = ''pkg'', p_url = None, p_extras = [],
                       p_specifier = [], p_marker = Some ''extra == \"test\"''\<rparr>"

definition app_dist :: Distribution where
  "app_dist =
     \<lparr>project_name = ''app'', version = Some ''2.0'', py_version = None, platform = None,
      location = None, precedence = 3,
      dep_map = [None \<mapsto> [], Some ''test'' \<mapsto> [pkg_if_test]]\<rparr>"

text \<open>An environment without platform or Python restriction that holds the given candidates for \<open>pkg\<close>.\<close>

definition env_of :: "Distribution list \<Rightarrow> Environment" where
  "env_of ds = \<lparr>distmap = [(''pkg'', ds)], env_platform = None, env_python = None\<rparr>"

text \<open>The same with \<open>app\<close> 2.0 and \<open>pkg\<close> 1.5 as candidates.\<close>

definition env_app :: Environment where
  "env_app =
     \<lparr>distmap = [(''app'', [app_dist]), (''pkg'', [pkg_dist ''1.5'' None])],
      env_platform = None, env_python = None\<rparr>"

section \<open>The invariant of an Environment\<close>

text \<open>
  \<open>precedes lib a b\<close>: both ordering tuples exist and that of \<open>b\<close> is less than that
  of \<open>a\<close>, so \<open>a\<close> sorts strictly before \<open>b\<close> in a descending list.
\<close>

definition precedes :: "('v::linorder) packaging \<Rightarrow> Distribution \<Rightarrow> Distribution \<Rightarrow> bool" where
  "precedes lib a b =
     (case (hashcmp lib a, hashcmp lib b) of
        (Inr ha, Inr hb) \<Rightarrow> tuple_lt hb ha = Inr True
      | _ \<Rightarrow> False)"

text \<open>
  The invariant of one list of an environment: every distribution is acceptable for the
  environment and has a version, no two are equal as distributions (equality is equality
  of the ordering tuples), and the list is in strictly descending order.
\<close>

definition list_inv :: "('v::linorder) packaging \<Rightarrow> Environment \<Rightarrow> Distribution list \<Rightarrow> bool" where
  "list_inv lib env ds =
     (list_all (\<lambda>d. can_add env d \<and> has_version d) ds
      \<and> distinct (map (hashcmp lib) ds)
      \<and> sorted_wrt (precedes lib) ds)"

definition env_inv :: "('v::linorder) packaging \<Rightarrow> Environment \<Rightarrow> bool" where
  "env_inv lib env =
     (distinct (map fst (distmap env)) \<and> list_all (\<lambda>(k, ds). list_inv lib env ds) (distmap env))"

text \<open>
  Two distributions whose ordering tuples Python can compare: \<open><\<close> raises in neither
  direction.
\<close>

definition comparable :: "('v::linorder) packaging \<Rightarrow> Distribution \<Rightarrow> Distribution \<Rightarrow> bool" where
  "comparable lib a b =
     (case (hashcmp lib a, hashcmp lib b) of
        (Inr ha, Inr hb) \<Rightarrow> \<not> isl (tuple_lt ha hb) \<and> \<not> isl (tuple_lt hb ha)
      | _ \<Rightarrow> False)"


text \<open>The descending order on (key, distribution) pairs that the sort establishes.\<close>

definition key_gt :: "('v::linorder) hashcmp_t \<times> Distribution \<Rightarrow> 'v hashcmp_t \<times> Distribution \<Rightarrow> bool" where
  "key_gt x y = (tuple_lt (fst y) (fst x) = Inr True)"

text \<open>The list stored under a key of \<open>_distmap\<close>, empty when the key is absent.\<close>

definition lookup :: "Environment \<Rightarrow> string \<Rightarrow> Distribution list" where
  "lookup env k = (case map_of (distmap env) k of None \<Rightarrow> [] | Some ds \<Rightarrow> ds)"

text \<open>The distributions an environment yields when it is iterated, as \<open>__iadd__\<close> reads them.\<close>

definition all_dists :: "Environment \<Rightarrow> Distribution list" where
  "all_dists env = concat (map (getitem env) (iter env))"

text \<open>The distributions of the right operand of \<open>+\<close>.\<close>

definition operand_dists :: "Distribution + Environment \<Rightarrow> Distribution list" where
  "operand_dists other = (case other of Inl d \<Rightarrow> [d] | Inr env \<Rightarrow> all_dists env)"

text \<open>A distribution is admitted when the list of its key holds an equal distribution.\<close>

definition admitted :: "('v::linorder) packaging \<Rightarrow> Environment \<Rightarrow> Distribution \<Rightarrow> bool" where
  "admitted lib env d = list_ex (\<lambda>x. hashcmp lib x = hashcmp lib d) (getitem env (key d))"

text \<open>An environment restricted to a platform and a Python version, and a distribution for another Python.\<close>

definition linux_env :: "Distribution list \<Rightarrow> Environment" where
  "linux_env ds =
     \<lparr>distmap = [(''pkg'', ds)], env_platform = Some ''linux-x86_64'', env_python = Some ''3.12''\<rparr>"

definition pkg_py27 :: Distribution where
  "pkg_py27 = (pkg_dist ''1.5'' (Some ''a''))\<lparr>py_version := Some ''2.7''\<rparr>"

section \<open>Entry points\<close>

text \<open>
  Attribute assignment is what claim C7 is about, so an entry point object is modelled by
  its instance dictionary (\<open>vars(self)\<close>), from attribute names to values.
\<close>

datatype pyvalue = NoneV | StrV string | TupleV "string list" | DistV Distribution

type_synonym pyobject = "string \<rightharpoonup> pyvalue"

text \<open>
  \<open>object.__setattr__\<close>, which a class without \<open>__setattr__\<close> and without slots
  inherits: the value is stored in the instance dictionary.
\<close>

definition object_setattr :: "pyobject \<Rightarrow> string \<Rightarrow> pyvalue \<Rightarrow> error + pyobject" where
  "object_setattr self name' v = Inr (self(name' \<mapsto> v))"

text \<open>
  \<open>Requirement.parse\<close>: the text goes through \<open>parse_requirements\<close>, whose line
  handling (jaraco.text) and parser (packaging) are the parameter \<open>parse_reqs\<close>, and
  must yield exactly one requirement.
\<close>

definition Requirement_parse ::
  "(string \<Rightarrow> error + parsed_requirement list) \<Rightarrow> string \<Rightarrow> error + Requirement" where
  "Requirement_parse parse_reqs s =
     (case parse_reqs s of
        Inl e \<Rightarrow> Inl e
      | Inr [p] \<Rightarrow> Inr (Requirement_init p)
      | Inr _ \<Rightarrow> Inl ValueError)"

text \<open>pkg\_resources \<open>EntryPoint.__init__\<close>: five attribute assignments after the module name check.\<close>

definition EntryPoint_init ::
  "string \<Rightarrow> string \<Rightarrow> string list \<Rightarrow> string list \<Rightarrow> Distribution option \<Rightarrow> error + pyobject" where
  "EntryPoint_init name' module_name attrs extras dist =
     (if \<not> MODULE module_name then Inl ValueError
      else Inr [''name'' \<mapsto> StrV name', ''module_name'' \<mapsto> StrV module_name,
                ''attrs'' \<mapsto> TupleV attrs, ''extras'' \<mapsto> TupleV extras,
                ''dist'' \<mapsto> (case dist of None \<Rightarrow> NoneV | Some d \<Rightarrow> DistV d)])"

text \<open>\<open>EntryPoint._parse_extras\<close>.\<close>

definition parse_extras ::
  "(string \<Rightarrow> error + parsed_requirement list) \<Rightarrow> string option \<Rightarrow> error + string list" where
  "parse_extras parse_reqs extras_spec =
     (case extras_spec of
        None \<Rightarrow> Inr []
      | Some s \<Rightarrow>
          if s = [] then Inr []
          else (case Requirement_parse parse_reqs (''x'' @ s) of
                  Inl e \<Rightarrow> Inl e
                | Inr req \<Rightarrow> if specs req \<noteq> [] then Inl ValueError else Inr (req_extras req)))"

text \<open>\<open>EntryPoint.parse\<close>.\<close>

definition EntryPoint_parse ::
  "(string \<Rightarrow> error + parsed_requirement list) \<Rightarrow> string \<Rightarrow> Distribution option \<Rightarrow> error + pyobject" where
  "EntryPoint_parse parse_reqs src dist =
     (case re_match EntryPoint_pattern src of
        None \<Rightarrow> Inl ValueError
      | Some res \<Rightarrow>
          (case parse_extras parse_reqs (res ''extras'') of
             Inl e \<Rightarrow> Inl e
           | Inr extras \<Rightarrow>
               (let attrs = (case res ''attr'' of
                               None \<Rightarrow> []
                             | Some a \<Rightarrow> if a = [] then [] else split (CHR ''.'') a)
                in EntryPoint_init (group res ''name'') (group res ''module'') attrs extras dist)))"

text \<open>
  importlib\_metadata \<open>EntryPoint\<close>: the pattern
  \<open>(?P<module>[\w.]+)\s*(:\s*(?P<attr>[\w.]+)\s*)?((?P<extras>\[.*\])\s*)?$\<close>,
  \<open>__init__\<close>, which fills the instance dictionary directly and raises
  \<open>ValueError\<close> when the value does not match, and \<open>__setattr__\<close>.
\<close>

definition metadata_pattern :: "item list" where
  "metadata_pattern =
     grp ''module'' (plus word_or_dot) @ [Many isspace True]
     @ [Opt (lit '':'' @ [Many isspace True] @ grp ''attr'' (plus word_or_dot) @ [Many isspace True])]
     @ [Opt (grp ''extras'' (lit ''['' @ [Many dot True] @ lit '']'') @ [Many isspace True])]
     @ [Eos]"

definition metadata_EntryPoint_init :: "string \<Rightarrow> string \<Rightarrow> string \<Rightarrow> error + pyobject" where
  "metadata_EntryPoint_init name' v group' =
     (case re_match metadata_pattern v of
        None \<Rightarrow> Inl ValueError
      | Some m \<Rightarrow> Inr [''name'' \<mapsto> StrV name', ''value'' \<mapsto> StrV v, ''group'' \<mapsto> StrV group'])"

definition metadata_EntryPoint_setattr :: "pyobject \<Rightarrow> string \<Rightarrow> pyvalue \<Rightarrow> error + pyobject" where
  "metadata_EntryPoint_setattr self name' v = Inl AttributeError"

text \<open>
  A requirement parser for texts of the form \<open>name[extra, ...]\<close>, to run
  \<open>EntryPoint.parse\<close> on examples. The parser of the packaging library keeps the extras
  in a set, and the order in which Python iterates a set of strings changes from one run
  to the next: the first argument is that order. Empty brackets give no extra, an empty
  name between commas is rejected.
\<close>

definition bracket_parser ::
  "(string list \<Rightarrow> string list) \<Rightarrow> string \<Rightarrow> error + parsed_requirement list" where
  "bracket_parser iteration s =
     (let (n, sep, rest) = partition_str (CHR ''['') s;
          inner = strip (takeWhile (\<lambda>c. c \<noteq> CHR '']'') rest);
          names = (if sep = [] \<or> inner = [] then [] else map strip (split (CHR '','') inner))
      in if [] \<in> set names then Inl ValueError
         else Inr [\<lparr>p_name = n, p_url = None, p_extras = iteration (remdups names),
                    p_specifier = [], p_marker = None\<rparr>])"

text \<open>The instance that \<open>EntryPoint.parse("foo = pkg.mod:attr [x,y]")\<close> builds.\<close>

definition parsed_foo :: pyobject where
  "parsed_foo =
     [''name'' \<mapsto> StrV ''foo'', ''module_name'' \<mapsto> StrV ''pkg.mod'',
      ''attrs'' \<mapsto> TupleV [''attr''], ''extras'' \<mapsto> TupleV [''x'', ''y''], ''dist'' \<mapsto> NoneV]"

section \<open>pkg\_resources: extraction of zipped resources\<close>

text \<open>
  Paths are POSIX paths (\<open>os.sep\<close> is the slash). \<open>posixpath.join\<close> of two
  components, \<open>os.path.join\<close> of several, \<open>os.path.split\<close> and \<open>os.path.dirname\<close>.
\<close>

definition join2 :: "string \<Rightarrow> string \<Rightarrow> string" where
  "join2 a b =
     (if startswith b ''/'' then b
      else if a = [] \<or> endswith a ''/'' then a @ b
      else a @ ''/'' @ b)"

definition path_join :: "string \<Rightarrow> string list \<Rightarrow> string" where
  "path_join a ps = foldl join2 a ps"

definition path_split :: "string \<Rightarrow> string \<times> string" where
  "path_split p =
     (let tail = rev (takeWhile (\<lambda>c. c \<noteq> CHR ''/'') (rev p));
          head = take (length p - length tail) p
      in (if head \<noteq> [] \<and> \<not> list_all (\<lambda>c. c = CHR ''/'') head
          then rev (dropWhile (\<lambda>c. c = CHR ''/'') (rev head)) else head,
          tail))"

definition dirname :: "string \<Rightarrow> string" where
  "dirname p = fst (path_split p)"

text \<open>
  The file system: regular files with their bytes and modification time, and the set of
  directories. \<open>written\<close> is the log of the paths at which a regular file was created,
  written, put by a rename or deleted, the latest last; it tells an extraction that finds
  a file from one that writes the same bytes again. \<open>cached_files\<close> is the dictionary
  of the resource manager, of which only the keys matter.
\<close>

type_synonym bytes = string

record regfile =
  contents :: bytes
  st_mtime :: int

record world =
  files :: "string \<rightharpoonup> regfile"
  dirs :: "string set"
  written :: "string list"
  cached_files :: "string set"

text \<open>
  The platform: \<open>WRITE_SUPPORT\<close>, \<open>os.name\<close>, the default cache directory,
  \<open>time.mktime\<close> on the date of an archive entry, the clock, the names that
  \<open>tempfile.mkstemp\<close> tries in turn, and the Windows directory.
\<close>

type_synonym date_time_t = "nat \<times> nat \<times> nat \<times> nat \<times> nat \<times> nat"

record platform_t =
  WRITE_SUPPORT :: bool
  os_name :: string
  default_cache :: string
  mktime :: "date_time_t \<Rightarrow> int"
  now :: int
  temp_names :: "string list"
  windir :: string

record ZipInfo =
  file_size :: nat
  date_time :: date_time_t

text \<open>
  A \<open>ZipProvider\<close>: the manifest of the archive (\<open>zipinfo\<close>, in archive order),
  the bytes of its entries (\<open>loader.get_data\<close>), and the egg that contains the module.
\<close>

record ZipProvider =
  egg_name :: "string option"
  egg_root :: string
  zip_pre :: string
  zipinfo :: "(string \<times> ZipInfo) list"
  get_data :: "string \<rightharpoonup> bytes"

record ResourceManager =
  extraction_path :: "string option"

text \<open>
  \<open>ZipProvider._index\<close>: for every path of the manifest, the last part is entered
  under its parent directory, and so on upwards until a directory is met that is already
  known. The parts are handled in reverse, last part first.
\<close>

fun index_parts :: "string list \<Rightarrow> (string \<times> string list) list \<Rightarrow> (string \<times> string list) list" where
  "index_parts [] ind = ind"
| "index_parts (part # parents) ind =
     (let parent = join ''/'' (rev parents)
      in case map_of ind parent of
           Some children \<Rightarrow> dict_set parent (children @ [part]) ind
         | None \<Rightarrow> index_parts parents (dict_set parent [part] ind))"

definition index :: "ZipProvider \<Rightarrow> (string \<times> string list) list" where
  "index self = foldl (\<lambda>ind path. index_parts (rev (split (CHR ''/'') path)) ind) [] (map fst (zipinfo self))"

text \<open>\<open>ZipProvider._parts\<close>.\<close>

definition parts :: "ZipProvider \<Rightarrow> string \<Rightarrow> error + string list" where
  "parts self zip_path =
     (let fspath = zip_pre self @ zip_path
      in if startswith fspath (egg_root self @ ''/'')
         then Inr (split (CHR ''/'') (drop (length (egg_root self) + 1) fspath))
         else Inl AssertionError)"

text \<open>\<open>ZipProvider._get_date_and_size\<close>.\<close>

definition get_date_and_size :: "platform_t \<Rightarrow> ZipInfo \<Rightarrow> int \<times> nat" where
  "get_date_and_size P zip_stat = (mktime P (date_time zip_stat), file_size zip_stat)"

text \<open>
  \<open>mkdir\<close>: a name that is taken raises \<open>FileExistsError\<close>; a name whose parent
  is not a directory raises another \<open>OSError\<close>; a relative name without a parent is
  created in the current directory.
\<close>

definition mkdir :: "world \<Rightarrow> string \<Rightarrow> error + world" where
  "mkdir w path =
     (if files w path \<noteq> None \<or> path \<in> dirs w then Inl FileExistsError
      else if dirname path \<noteq> [] \<and> dirname path \<notin> dirs w then Inl OSError
      else Inr (w\<lparr>dirs := insert path (dirs w)\<rparr>))"

text \<open>
  \<open>_bypass_ensure_directory\<close>: the missing ancestors of a path are created from the
  top; the \<open>FileExistsError\<close> of \<open>mkdir\<close> is passed over, any other exception is
  raised. The result is the exception, if any, with the world as the call leaves it. The
  test of \<open>WRITE_SUPPORT\<close>, which the source repeats at every level, is made once.
\<close>

function ensure_directory :: "world \<Rightarrow> string \<Rightarrow> error option \<times> world" where
  "ensure_directory w path =
     (let dir = fst (path_split path); filename = snd (path_split path)
      in if dir \<noteq> [] \<and> filename \<noteq> [] \<and> dir \<notin> dirs w
         then (case ensure_directory w dir of
                 (Some e, w') \<Rightarrow> (Some e, w')
               | (None, w') \<Rightarrow>
                   (case mkdir w' dir of
                      Inl FileExistsError \<Rightarrow> (None, w')
                    | Inl e \<Rightarrow> (Some e, w')
                    | Inr w'' \<Rightarrow> (None, w'')))
         else (None, w))"
  by pat_completeness auto
termination
proof -
  have shorter: "length (fst (path_split p)) < length p" if "snd (path_split p) \<noteq> []" for p
  proof -
      define t where "t = rev (takeWhile (\<lambda>c. c \<noteq> CHR ''/'') (rev p))"
      define h where "h = take (length p - length t) p"
      have "t \<noteq> []" using that by (simp add: path_split_def Let_def t_def)
      then have lt: "0 < length t" by simp
      have le: "length t \<le> length p"
        unfolding t_def by (metis length_rev length_takeWhile_le)
      have "length h = length p - length t" unfolding h_def by simp
      then have "length h < length p" using lt le by arith
      moreover have "length (rev (dropWhile (\<lambda>c. c = CHR ''/'') (rev h))) \<le> length h"
        by (metis length_rev length_dropWhile_le)
      moreover have "fst (path_split p) = h \<or> fst (path_split p) = rev (dropWhile (\<lambda>c. c = CHR ''/'') (rev h))"
        by (simp add: path_split_def Let_def t_def h_def)
      ultimately show ?thesis by auto
  qed
  show ?thesis
    by (relation "measure (\<lambda>(w, path). length path)") (auto simp add: shorter)
qed

declare ensure_directory.simps [simp del]

definition bypass_ensure_directory :: "platform_t \<Rightarrow> world \<Rightarrow> string \<Rightarrow> error option \<times> world" where
  "bypass_ensure_directory P w path =
     (if \<not> WRITE_SUPPORT P then (Some OSError, w) else ensure_directory w path)"

text \<open>
  \<open>ResourceManager._warn_unsafe_extraction_path\<close>: the warning is not modelled, the
  \<open>os.stat\<close> of the path is, which raises when nothing is there.
\<close>

definition warn_unsafe_extraction_path :: "platform_t \<Rightarrow> world \<Rightarrow> string \<Rightarrow> error + unit" where
  "warn_unsafe_extraction_path P w path =
     (if os_name P = ''nt'' \<and> \<not> startswith path (windir P) then Inr ()
      else if path \<in> dirs w \<or> files w path \<noteq> None then Inr ()
      else Inl OSError)"

text \<open>
  \<open>ResourceManager.get_cache_path\<close>. The result is the exception or the path, with
  the world as the call leaves it.
\<close>

definition cache_path :: "platform_t \<Rightarrow> ResourceManager \<Rightarrow> string \<Rightarrow> string list \<Rightarrow> string" where
  "cache_path P manager archive_name names =
     (let extract_path = (case extraction_path manager of
                            None \<Rightarrow> default_cache P
                          | Some p \<Rightarrow> if p = [] then default_cache P else p)
      in path_join extract_path ((archive_name @ ''-tmp'') # names))"

definition extract_path_of :: "platform_t \<Rightarrow> ResourceManager \<Rightarrow> string" where
  "extract_path_of P manager =
     (case extraction_path manager of
        None \<Rightarrow> default_cache P
      | Some p \<Rightarrow> if p = [] then default_cache P else p)"

definition get_cache_path ::
  "platform_t \<Rightarrow> ResourceManager \<Rightarrow> world \<Rightarrow> string \<Rightarrow> string list \<Rightarrow> (error + string) \<times> world" where
  "get_cache_path P manager w archive_name names =
     (let target_path = cache_path P manager archive_name names
      in case bypass_ensure_directory P w target_path of
           (Some e, w') \<Rightarrow> (Inl ExtractionError, w')
         | (None, w') \<Rightarrow>
             (case warn_unsafe_extraction_path P w' (extract_path_of P manager) of
                Inl e \<Rightarrow> (Inl e, w')
              | Inr u \<Rightarrow> (Inr target_path, w'\<lparr>cached_files := insert target_path (cached_files w')\<rparr>)))"

text \<open>\<open>ZipProvider._is_current\<close>.\<close>

definition is_current :: "platform_t \<Rightarrow> ZipProvider \<Rightarrow> world \<Rightarrow> string \<Rightarrow> string \<Rightarrow> error + bool" where
  "is_current P self w file_path zip_path =
     (case map_of (zipinfo self) zip_path of
        None \<Rightarrow> Inl KeyError
      | Some zip_stat \<Rightarrow>
          (let (timestamp, size') = get_date_and_size P zip_stat
           in case files w file_path of
                None \<Rightarrow> Inr False
              | Some f \<Rightarrow>
                  if length (contents f) \<noteq> size' \<or> st_mtime f \<noteq> timestamp then Inr False
                  else (case get_data self zip_path of
                          None \<Rightarrow> Inl OSError
                        | Some zip_contents \<Rightarrow> Inr (zip_contents = contents f))))"

text \<open>
  \<open>_mkstemp(".$extract", dir=d)\<close>: the first of the names that is free in the
  directory is created as an empty file.
\<close>

definition temp_path :: "string \<Rightarrow> string \<Rightarrow> string" where
  "temp_path dir n = join2 dir (''tmp'' @ n @ ''.$extract'')"

definition mkstemp :: "platform_t \<Rightarrow> world \<Rightarrow> string \<Rightarrow> error + string \<times> world" where
  "mkstemp P w dir =
     (if dir \<notin> dirs w then Inl OSError
      else case List.find (\<lambda>n. files w (temp_path dir n) = None \<and> temp_path dir n \<notin> dirs w)
                  (temp_names P) of
             None \<Rightarrow> Inl OSError
           | Some n \<Rightarrow>
               Inr (temp_path dir n,
                    w\<lparr>files := (files w)(temp_path dir n \<mapsto> \<lparr>contents = [], st_mtime = now P\<rparr>),
                      written := written w @ [temp_path dir n]\<rparr>))"

text \<open>
  \<open>rename\<close>: a directory is never replaced; on Windows an existing file is not
  replaced either; otherwise the source takes the place of the target.
\<close>

definition rename :: "platform_t \<Rightarrow> world \<Rightarrow> string \<Rightarrow> string \<Rightarrow> error + world" where
  "rename P w src dst =
     (case files w src of
        None \<Rightarrow> Inl OSError
      | Some f \<Rightarrow>
          if dst \<in> dirs w then Inl OSError
          else if os_name P = ''nt'' \<and> files w dst \<noteq> None then Inl OSError
          else Inr (w\<lparr>files := ((files w)(src := None))(dst \<mapsto> f),
                      written := written w @ [src, dst]\<rparr>))"

definition unlink :: "world \<Rightarrow> string \<Rightarrow> error + world" where
  "unlink w path =
     (case files w path of
        None \<Rightarrow> Inl OSError
      | Some f \<Rightarrow> Inr (w\<lparr>files := (files w)(path := None), written := written w @ [path]\<rparr>))"

text \<open>
  The handler of the inner \<open>try\<close> of \<open>_extract_resource\<close>, entered when
  \<open>rename\<close> raises: a file that has become current is kept, on Windows the old file is
  deleted and the rename repeated, otherwise the exception is raised again.
\<close>

definition rename_failed ::
  "platform_t \<Rightarrow> ZipProvider \<Rightarrow> world \<Rightarrow> string \<Rightarrow> string \<Rightarrow> string \<Rightarrow> error
    \<Rightarrow> (error + string) \<times> world" where
  "rename_failed P self w tmpnam real_path zip_path e =
     (if files w real_path \<noteq> None then
        (case is_current P self w real_path zip_path of
           Inl e' \<Rightarrow> (Inl e', w)
         | Inr True \<Rightarrow> (Inr real_path, w)
         | Inr False \<Rightarrow>
             if os_name P = ''nt'' then
               (case unlink w real_path of
                  Inl e' \<Rightarrow> (Inl e', w)
                | Inr w1 \<Rightarrow>
                    (case rename P w1 tmpnam real_path of
                       Inl e' \<Rightarrow> (Inl e', w1)
                     | Inr w2 \<Rightarrow> (Inr real_path, w2)))
             else (Inl e, w))
      else (Inl e, w))"

text \<open>
  The part of \<open>_extract_resource\<close> after the check for a current file: the bytes go
  to a temporary file, which gets the time of the archive entry and is renamed into place.
\<close>

definition write_and_rename ::
  "platform_t \<Rightarrow> ZipProvider \<Rightarrow> world \<Rightarrow> string \<Rightarrow> string \<Rightarrow> int \<Rightarrow> (error + string) \<times> world" where
  "write_and_rename P self w real_path zip_path timestamp =
     (case mkstemp P w (dirname real_path) of
        Inl e \<Rightarrow> (Inl e, w)
      | Inr (tmpnam, w1) \<Rightarrow>
          (case get_data self zip_path of
             None \<Rightarrow> (Inl OSError, w1)
           | Some data \<Rightarrow>
               (let w2 = w1\<lparr>files := (files w1)(tmpnam \<mapsto> \<lparr>contents = data, st_mtime = timestamp\<rparr>),
                           written := written w1 @ [tmpnam]\<rparr>
                in case rename P w2 tmpnam real_path of
                     Inr w3 \<Rightarrow> (Inr real_path, w3)
                   | Inl e \<Rightarrow> rename_failed P self w2 tmpnam real_path zip_path e)))"

text \<open>
  An \<open>OSError\<close> inside the outer \<open>try\<close>, \<open>FileExistsError\<close> being one, becomes
  the \<open>ExtractionError\<close> of \<open>manager.extraction_error()\<close>.
\<close>

definition as_extraction_error :: "(error + string) \<times> world \<Rightarrow> (error + string) \<times> world" where
  "as_extraction_error r =
     (case r of
        (Inl OSError, w) \<Rightarrow> (Inl ExtractionError, w)
      | (Inl FileExistsError, w) \<Rightarrow> (Inl ExtractionError, w)
      | _ \<Rightarrow> r)"

text \<open>
  \<open>_extract_resource\<close> for an entry that is not a directory. The result is the
  exception or the path, with the world as the call leaves it.
\<close>

definition extract_file ::
  "platform_t \<Rightarrow> ZipProvider \<Rightarrow> ResourceManager \<Rightarrow> world \<Rightarrow> string \<Rightarrow> (error + string) \<times> world" where
  "extract_file P self manager w zip_path =
     (case map_of (zipinfo self) zip_path of
        None \<Rightarrow> (Inl KeyError, w)
      | Some zip_stat \<Rightarrow>
          (let (timestamp, size') = get_date_and_size P zip_stat
           in if \<not> WRITE_SUPPORT P then (Inl OSError, w)
              else as_extraction_error
                (case egg_name self of
                   None \<Rightarrow> (Inl OSError, w)
                 | Some name' \<Rightarrow>
                     if name' = [] then (Inl OSError, w)
                     else (case parts self zip_path of
                             Inl e \<Rightarrow> (Inl e, w)
                           | Inr ps \<Rightarrow>
                               (case get_cache_path P manager w name' ps of
                                  (Inl e, w1) \<Rightarrow> (Inl e, w1)
                                | (Inr real_path, w1) \<Rightarrow>
                                    (case is_current P self w1 real_path zip_path of
                                       Inl e \<Rightarrow> (Inl e, w1)
                                     | Inr True \<Rightarrow> (Inr real_path, w1)
                                     | Inr False \<Rightarrow>
                                         write_and_rename P self w1 real_path zip_path timestamp))))))"

text \<open>
  \<open>ZipProvider._extract_resource\<close>. A directory of the archive is extracted entry by
  entry and the directory of the last one is returned; without entries the variable
  \<open>last\<close> is unbound. The recursion follows the directories of the archive; its depth is
  bounded by the first argument, and \<open>None\<close> says that the bound was too small.
\<close>

fun extract_children ::
  "(world \<Rightarrow> string \<Rightarrow> ((error + string) \<times> world) option) \<Rightarrow> string \<Rightarrow> string list
    \<Rightarrow> string option \<Rightarrow> world \<Rightarrow> ((error + string) \<times> world) option" where
  "extract_children extract zip_path [] last' w =
     (case last' of
        None \<Rightarrow> Some (Inl NameError, w)
      | Some l \<Rightarrow> Some (Inr (dirname l), w))"
| "extract_children extract zip_path (name' # names) last' w =
     (case extract w (join2 zip_path name') of
        None \<Rightarrow> None
      | Some (Inl e, w') \<Rightarrow> Some (Inl e, w')
      | Some (Inr l, w') \<Rightarrow> extract_children extract zip_path names (Some l) w')"

primrec extract_resource ::
  "nat \<Rightarrow> platform_t \<Rightarrow> ZipProvider \<Rightarrow> ResourceManager \<Rightarrow> world \<Rightarrow> string
    \<Rightarrow> ((error + string) \<times> world) option" where
  "extract_resource 0 P self manager = (\<lambda>w zip_path. None)"
| "extract_resource (Suc n) P self manager =
     (\<lambda>w zip_path.
        case map_of (index self) zip_path of
          Some children \<Rightarrow> extract_children (extract_resource n P self manager) zip_path children None w
        | None \<Rightarrow> Some (extract_file P self manager w zip_path))"

text \<open>The size recorded in the manifest for an entry is the size of its bytes.\<close>

definition entry_size_ok :: "ZipProvider \<Rightarrow> string \<Rightarrow> bool" where
  "entry_size_ok self zip_path =
     (case map_of (zipinfo self) zip_path of
        None \<Rightarrow> True
      | Some zip_stat \<Rightarrow>
          (case get_data self zip_path of None \<Rightarrow> True | Some data \<Rightarrow> file_size zip_stat = length data))"

text \<open>
  The entries of the archive that \<open>_extract_resource\<close> visits for a resource: the
  resource itself when the index does not list it as a directory, and otherwise the entries
  visited for its children, in their order. The first argument bounds the depth as in
  \<open>extract_resource\<close>.
\<close>

primrec leaves :: "nat \<Rightarrow> ZipProvider \<Rightarrow> string \<Rightarrow> string list" where
  "leaves 0 self = (\<lambda>zip_path. [])"
| "leaves (Suc n) self =
     (\<lambda>zip_path.
        case map_of (index self) zip_path of
          Some children \<Rightarrow> concat (map (\<lambda>name'. leaves n self (join2 zip_path name')) children)
        | None \<Rightarrow> [zip_path])"

text \<open>The path in the cache at which an entry is extracted.\<close>

definition target :: "platform_t \<Rightarrow> ZipProvider \<Rightarrow> ResourceManager \<Rightarrow> string \<Rightarrow> string" where
  "target P self manager zip_path =
     cache_path P manager (case egg_name self of None \<Rightarrow> [] | Some name' \<Rightarrow> name')
       (case parts self zip_path of Inl e \<Rightarrow> [] | Inr ps \<Rightarrow> ps)"

text \<open>The cached file of an entry is current.\<close>

definition cached_current ::
  "platform_t \<Rightarrow> ZipProvider \<Rightarrow> ResourceManager \<Rightarrow> world \<Rightarrow> string \<Rightarrow> bool" where
  "cached_current P self manager w zip_path =
     (case is_current P self w (target P self manager zip_path) zip_path of
        Inr b \<Rightarrow> b
      | Inl e \<Rightarrow> False)"

text \<open>
  A world that comes from another by extractions to the paths \<open>T\<close>: directories and
  names in the manager's dictionary are only added, the paths \<open>T\<close> are in the dictionary,
  no file disappears, and a file at another path is left as it was.
\<close>

definition extended :: "string set \<Rightarrow> world \<Rightarrow> world \<Rightarrow> bool" where
  "extended T w w1 =
     (dirs w \<subseteq> dirs w1 \<and> cached_files w \<union> T \<subseteq> cached_files w1
      \<and> (\<forall>q. files w q \<noteq> None \<longrightarrow> files w1 q \<noteq> None)
      \<and> (\<forall>q. q \<notin> T \<longrightarrow> files w q \<noteq> None \<longrightarrow> files w1 q = files w q))"

text \<open>The path an extraction returned, and a file and the log of writes as it left them.\<close>

definition extracted_path :: "((error + string) \<times> world) option \<Rightarrow> string option" where
  "extracted_path r = (case r of Some (Inr p, w) \<Rightarrow> Some p | _ \<Rightarrow> None)"

definition file_after :: "((error + string) \<times> world) option \<Rightarrow> string \<Rightarrow> regfile option" where
  "file_after r p = (case r of Some (x, w) \<Rightarrow> files w p | None \<Rightarrow> None)"

definition written_after :: "((error + string) \<times> world) option \<Rightarrow> string list" where
  "written_after r = (case r of Some (x, w) \<Rightarrow> written w | None \<Rightarrow> [])"

text \<open>A POSIX platform, an egg with two entries, and two worlds: one with a cached file of
  the right size and time but other bytes, and one with an empty cache.\<close>

definition P0 :: platform_t where
  "P0 = \<lparr>WRITE_SUPPORT = True, os_name = ''posix'', default_cache = ''/cache'',
          mktime = (\<lambda>(y, mo, d, h, mi, s). ((((int y * 12 + int mo) * 31 + int d) * 24 + int h) * 60 + int mi) * 60 + int s),
          now = 0, temp_names = [''a'', ''b''], windir = ''C:''\<rparr>"

definition egg :: ZipProvider where
  "egg = \<lparr>egg_name = Some ''pkg.egg'', egg_root = ''/eggs/pkg.egg'', zip_pre = ''/eggs/pkg.egg/'',
           zipinfo = [(''data/a.txt'', \<lparr>file_size = 2, date_time = (1980, 1, 1, 0, 0, 0)\<rparr>),
                      (''top.txt'', \<lparr>file_size = 1, date_time = (1980, 1, 1, 0, 0, 0)\<rparr>)],
           get_data = [''data/a.txt'' \<mapsto> ''hi'', ''top.txt'' \<mapsto> ''y'']\<rparr>"

definition manager0 :: ResourceManager where
  "manager0 = \<lparr>extraction_path = None\<rparr>"

definition stale_world :: world where
  "stale_world =
     \<lparr>files = [''/cache/pkg.egg-tmp/top.txt'' \<mapsto>
                 \<lparr>contents = ''z'', st_mtime = mktime P0 (1980, 1, 1, 0, 0, 0)\<rparr>],
      dirs = {''/'', ''/cache'', ''/cache/pkg.egg-tmp''}, written = [], cached_files = {}\<rparr>"

definition empty_world :: world where
  "empty_world = \<lparr>files = Map.empty, dirs = {''/''}, written = [], cached_files = {}\<rparr>"

section \<open>pkg\_resources: resource path validation\<close>

datatype warning = DeprecationWarning string

text \<open>\<open>posixpath.isabs\<close>: the path starts with a slash.\<close>

definition posixpath_isabs :: "string \<Rightarrow> bool" where
  "posixpath_isabs s = startswith s ''/''"

text \<open>
  \<open>ntpath.isabs\<close> belongs to the standard library and has changed between Python
  releases; \<open>_validate_resource_path\<close> takes it as the parameter \<open>nt_isabs\<close>.
  \<open>ntpath_isabs\<close> below is the current one: within the first three characters, with
  slashes read as backslashes, a colon and a backslash follow the first character, or the
  path starts with two backslashes.
\<close>

definition ntpath_isabs :: "string \<Rightarrow> bool" where
  "ntpath_isabs s =
     (let s3 = map (\<lambda>c. if c = CHR ''/'' then backslash else c) (take 3 s)
      in startswith (drop 1 s3) [CHR '':'', backslash] \<or> startswith s3 [backslash, backslash])"

definition msg :: string where
  "msg = ''Use of .. or absolute path in a resource path is not allowed.''"

text \<open>
  \<open>NullProvider._validate_resource_path\<close>. The result is the exception raised, or
  the warning issued (\<open>None\<close> when the path is accepted silently).
\<close>

definition invalid :: "(string \<Rightarrow> bool) \<Rightarrow> string \<Rightarrow> bool" where
  "invalid nt_isabs path =
     (''..'' \<in> set (split (CHR ''/'') path)
      \<or> posixpath_isabs path
      \<or> nt_isabs path
      \<or> startswith path [backslash])"

definition validate_resource_path :: "(string \<Rightarrow> bool) \<Rightarrow> string \<Rightarrow> error + warning option" where
  "validate_resource_path nt_isabs path =
     (if \<not> invalid nt_isabs path then Inr None
      else if (startswith path [backslash] \<or> nt_isabs path) \<and> \<not> posixpath_isabs path
      then Inl ValueError
      else Inr (Some (DeprecationWarning
             (butlast msg @ '' and will raise exceptions in a future release.''))))"

section \<open>Properties\<close>

subsection \<open>Legacy requirement sections\<close>

lemma partition_str_colon:
  "c \<notin> set a \<Longrightarrow> partition_str c (a @ c # b) = (a, [c], b)"
  by (simp add: partition_str_def takeWhile_append2 dropWhile_append3 takeWhile_tail dropWhile_append)

text \<open>
  Claim C6 as stated: the header \<open>test: sys_platform=="win32"\<close> with body \<open>foo\<close> converts to
  \<open>foo; (sys_platform=="win32") and extra == "test"\<close>. The conversion keeps the space
  that follows the colon, so the result is a different string.
\<close>

theorem legacy_section_as_claimed_counterexample:
  "deps_from_requires_text ''[test: sys_platform==\"win32\"]\<newline>foo''
     \<noteq> [''foo; (sys_platform==\"win32\") and extra == \"test\"'']"
  by code_simp

text \<open>
  Claim C6, amended: \<open>Sectioned.read\<close> names the section by the header text between
  the brackets, and a body line \<open>v\<close> without \<open>@\<close> under a section named \<open>extra:markers\<close>
  (a non-empty extra without colon, non-empty marker text) converts to
  \<open>v; (markers) and extra == "extra"\<close>, the marker text copied as it is, a leading space
  included.
\<close>

theorem legacy_section_conversion:
  assumes "extra \<noteq> []" and "CHR '':'' \<notin> set extra" and "markers \<noteq> []" and "CHR ''@'' \<notin> set v"
  shows "Sectioned_read ''[test: sys_platform==\"win32\"]\<newline>foo'' None
           = [(Some ''test: sys_platform==\"win32\"'', ''foo'')]
       \<and> convert_egg_info_reqs_to_simple_reqs [(Some (extra @ '':'' @ markers), v)]
           = [v @ ''; ('' @ markers @ '') and extra == \"'' @ extra @ ''\"'']"
proof
  show "Sectioned_read ''[test: sys_platform==\"win32\"]\<newline>foo'' None
     = [(Some ''test: sys_platform==\"win32\"'', ''foo'')]"
    by code_simp
next
  show "convert_egg_info_reqs_to_simple_reqs [(Some (extra @ '':'' @ markers), v)]
          = [v @ ''; ('' @ markers @ '') and extra == \"'' @ extra @ ''\"'']"
    using assms
    by (simp add: convert_egg_info_reqs_to_simple_reqs_def quoted_marker_def url_req_space_def
        make_condition_def partition_str_colon)
qed

theorem legacy_section_conversion_witness:
  "deps_from_requires_text ''[test: sys_platform==\"win32\"]\<newline>foo''
     = [''foo; ( sys_platform==\"win32\") and extra == \"test\"'']"
  using legacy_section_conversion [of "''test''" "'' sys_platform==\"win32\"''" "''foo''"]
  by (simp add: deps_from_requires_text_def)

subsection \<open>Resource path validation\<close>

text \<open>
  Claim C8 as stated: validation never raises for a path it judges invalid. A path that
  starts with a backslash is invalid and raises \<open>ValueError\<close>.
\<close>

theorem validate_never_raises_counterexample:
  "invalid ntpath_isabs (backslash # ''foo/bar.txt'')
   \<and> validate_resource_path ntpath_isabs (backslash # ''foo/bar.txt'') = Inl ValueError"
  by (simp add: validate_resource_path_def invalid_def startswith_def posixpath_isabs_def backslash_def)

text \<open>
  Claim C8, amended: for a path judged invalid, validation raises \<open>ValueError\<close> exactly
  when the path starts with a backslash or is a Windows absolute path, and is not a POSIX
  absolute path; every other invalid path (a \<open>..\<close> segment, a leading slash) gets the
  deprecation warning and no exception.
\<close>

theorem validate_resource_path_invalid:
  assumes "invalid nt_isabs path"
  shows "(validate_resource_path nt_isabs path = Inl ValueError
            \<longleftrightarrow> (startswith path [backslash] \<or> nt_isabs path) \<and> \<not> posixpath_isabs path)
       \<and> (validate_resource_path nt_isabs path
            = Inr (Some (DeprecationWarning (butlast msg @ '' and will raise exceptions in a future release.'')))
            \<longleftrightarrow> posixpath_isabs path \<or> \<not> (startswith path [backslash] \<or> nt_isabs path))
       \<and> validate_resource_path nt_isabs path \<noteq> Inr None"
  using assms by (auto simp add: validate_resource_path_def)

theorem validate_resource_path_invalid_witness:
  "invalid ntpath_isabs ''../foo/bar.txt''
   \<and> validate_resource_path ntpath_isabs ''../foo/bar.txt''
       = Inr (Some (DeprecationWarning (butlast msg @ '' and will raise exceptions in a future release.'')))"
proof -
  have i: "invalid ntpath_isabs ''../foo/bar.txt''"
    by (simp add: invalid_def split_def)
  have n: "\<not> (startswith ''../foo/bar.txt'' [backslash] \<or> ntpath_isabs ''../foo/bar.txt'')"
    by (simp add: startswith_def ntpath_isabs_def backslash_def)
  show ?thesis using validate_resource_path_invalid [OF i] i n by blast
qed

subsection \<open>The example requirements and the instance\<close>

lemma pkg_ge_1_0_fields:
  "req_key pkg_ge_1_0 = ''pkg''" "marker pkg_ge_1_0 = None"
  "specifier pkg_ge_1_0 = [(''>='', ''1.0'')]" "req_extras pkg_ge_1_0 = []"
  "req_project_name pkg_ge_1_0 = ''pkg''"
  by (simp_all add: pkg_ge_1_0_def Requirement_init_def safe_name_def lower_def lower_char_def
      is_alnum_def is_digit_def Let_def)

lemma safe_name_pkg: "replace_char (CHR ''.'') (CHR ''-'') (safe_name ''pkg'') = ''pkg''"
  by (simp add: safe_name_def is_alnum_def is_digit_def replace_char_def)

lemma find_no_active:
  assumes "by_key ws ''pkg'' = None"
    and "\<And>k. normalized_to_canonical_keys ws ''pkg'' = Some k \<Longrightarrow> by_key ws k = None"
  shows "find lib ws pkg_ge_1_0 = (pkg_ge_1_0, Inr None)"
proof -
  have "first_active (by_key ws) (find_candidates ws pkg_ge_1_0) = None"
    using assms
    by (cases "normalized_to_canonical_keys ws ''pkg''")
       (simp_all add: find_candidates_def pkg_ge_1_0_fields safe_name_pkg List.map_filter_simps)
  then show ?thesis by (simp add: find_def)
qed

lemma release_ge:
  "spec_contains release_packaging [(''>='', ''1.0'')] ''0.9'' True = Inr False"
  "spec_contains release_packaging [(''>='', ''1.0'')] ''0.5'' True = Inr False"
  "spec_contains release_packaging [(''>='', ''1.0'')] ''1.5'' True = Inr True"
  by (simp_all add: release_packaging_def clause_holds_def release_def split_def
      int_of_digits_def digit_val_def)

lemma key_pkg_dist: "key (pkg_dist v loc) = ''pkg''"
  by (simp add: key_def pkg_dist_def lower_def lower_char_def)

subsection \<open>Requirements and distributions\<close>

text \<open>
  Claim C3: \<open>d in r\<close> returns \<open>True\<close> exactly when the key of \<open>d\<close> is the key of \<open>r\<close>
  and the specifier of \<open>r\<close> contains the version of \<open>d\<close>, asked with
  \<open>prereleases=True\<close> whatever the specifier; it returns \<open>False\<close> exactly when the keys
  differ or the specifier, asked the same way, does not contain the version.
\<close>

theorem requirement_contains_iff:
  "(dist_in_req lib d r = Inr True
      \<longleftrightarrow> key d = req_key r
          \<and> (\<exists>v. version d = Some v \<and> spec_contains lib (specifier r) v True = Inr True))
   \<and> (dist_in_req lib d r = Inr False
      \<longleftrightarrow> key d \<noteq> req_key r
          \<or> (\<exists>v. version d = Some v \<and> spec_contains lib (specifier r) v True = Inr False))"
  by (auto simp add: dist_in_req_def Requirement_contains_def split: option.splits)

theorem requirement_contains_iff_witness:
  "dist_in_req release_packaging (pkg_dist ''1.5'' None) pkg_ge_1_0 = Inr True
   \<and> dist_in_req release_packaging (pkg_dist ''0.9'' None) pkg_ge_1_0 = Inr False"
  using requirement_contains_iff [of release_packaging "pkg_dist ''1.5'' None" pkg_ge_1_0]
    requirement_contains_iff [of release_packaging "pkg_dist ''0.9'' None" pkg_ge_1_0]
  by (simp add: key_pkg_dist pkg_ge_1_0_fields release_ge) (simp add: pkg_dist_def release_ge)

subsection \<open>Resolution failures\<close>

text \<open>
  Claim C1: in a working set with no active distribution for \<open>pkg\<close> (none under the key
  and none under the alias that the table of normalized names may hold for it), resolving
  \<open>pkg>=1.0\<close> against an environment whose only candidate for the key is version 0.9, with
  no installer, raises \<open>DistributionNotFound\<close> for the requirement with no requirers, and
  not a version conflict.
\<close>

theorem resolve_not_found:
  assumes "by_key ws ''pkg'' = None"
    and "\<And>k. normalized_to_canonical_keys ws ''pkg'' = Some k \<Longrightarrow> by_key ws k = None"
    and "getitem env ''pkg'' = [d]" and "key d = ''pkg''" and "version d = Some ''0.9''"
    and "spec_contains lib [(''>='', ''1.0'')] ''0.9'' True = Inr False"
  shows "resolve lib ws [pkg_ge_1_0] (Some env) None replace_conflicting extras
           = Some (Inl (DistributionNotFound pkg_ge_1_0 None))"
proof -
  have nin: "dist_in_req lib d pkg_ge_1_0 = Inr False"
    using assms(4-6) by (simp add: dist_in_req_def Requirement_contains_def pkg_ge_1_0_fields)
  have bm: "best_match lib env pkg_ge_1_0 ws None replace_conflicting = (pkg_ge_1_0, Inr None)"
    using assms(3) nin
    by (simp add: best_match_def find_no_active [OF assms(1,2)] pkg_ge_1_0_fields env_obtain_def)
  have rd: "resolve_dist lib ws pkg_ge_1_0 Map.empty replace_conflicting (Some env) None Map.empty []
              = Inl (DistributionNotFound pkg_ge_1_0 None)"
    using assms(1) by (simp add: resolve_dist_def pkg_ge_1_0_fields bm)
  have st: "resolve_step lib ws (Some env) None replace_conflicting extras pkg_ge_1_0
              \<lparr>requirements = [], processed = {}, best = Map.empty, to_activate = [],
               req_extras_map = Map.empty, required_by = Map.empty\<rparr>
              = Inl (DistributionNotFound pkg_ge_1_0 None)"
    by (simp add: resolve_step_def markers_pass_def pkg_ge_1_0_fields rd)
  show ?thesis
    by (simp add: resolve_def resolve_loop.simps st)
qed

theorem resolve_not_found_witness:
  "resolve release_packaging empty_WorkingSet [pkg_ge_1_0] (Some (env_of [pkg_dist ''0.9'' None]))
     None False None = Some (Inl (DistributionNotFound pkg_ge_1_0 None))"
  by (rule resolve_not_found [where d = "pkg_dist ''0.9'' None"])
     (simp_all add: empty_WorkingSet_def getitem_def env_of_def lower_def lower_char_def
        key_pkg_dist release_ge, simp add: pkg_dist_def)

text \<open>
  Claim C2: in a working set where \<open>pkg\<close> 0.5 is active under the key \<open>pkg\<close>, resolving
  \<open>pkg>=1.0\<close> with \<open>replace_conflicting=False\<close> raises a \<open>VersionConflict\<close> that carries
  the active distribution and the requirement, whatever the environment, the installer and
  the extras.
\<close>

theorem resolve_version_conflict:
  assumes "by_key ws ''pkg'' = Some d" and "key d = ''pkg''" and "version d = Some ''0.5''"
    and "spec_contains lib [(''>='', ''1.0'')] ''0.5'' True = Inr False"
  shows "resolve lib ws [pkg_ge_1_0] env installer False extras
           = Some (Inl (VersionConflict d pkg_ge_1_0))"
proof -
  have nin: "dist_in_req lib d pkg_ge_1_0 = Inr False"
    using assms(2-4) by (simp add: dist_in_req_def Requirement_contains_def pkg_ge_1_0_fields)
  have rd: "resolve_dist lib ws pkg_ge_1_0 Map.empty False env installer Map.empty []
              = Inl (VersionConflict d pkg_ge_1_0)"
    using assms(1) nin by (simp add: resolve_dist_def pkg_ge_1_0_fields with_context_def)
  have st: "resolve_step lib ws env installer False extras pkg_ge_1_0
              \<lparr>requirements = [], processed = {}, best = Map.empty, to_activate = [],
               req_extras_map = Map.empty, required_by = Map.empty\<rparr>
              = Inl (VersionConflict d pkg_ge_1_0)"
    by (simp add: resolve_step_def markers_pass_def pkg_ge_1_0_fields rd)
  show ?thesis
    by (simp add: resolve_def resolve_loop.simps st)
qed

theorem resolve_version_conflict_witness:
  "resolve release_packaging (empty_WorkingSet\<lparr>by_key := [''pkg'' \<mapsto> pkg_dist ''0.5'' None]\<rparr>)
     [pkg_ge_1_0] None None False None
   = Some (Inl (VersionConflict (pkg_dist ''0.5'' None) pkg_ge_1_0))"
  by (rule resolve_version_conflict)
     (simp_all add: key_pkg_dist release_ge, simp add: pkg_dist_def)

subsection \<open>Markers and extras\<close>

lemma any_evaluate_only_empty:
  assumes "\<And>e. marker_evaluate lib m e = Inr (e = [])"
  shows "any_evaluate lib m es = Inr ([] \<in> set es)"
  using assms by (induction es) (auto split: bool.splits)

lemma resolve_loop_done:
  "resolve_loop lib ws env installer rc extras
     \<lparr>requirements = [], processed = X, best = B, to_activate = T,
      req_extras_map = R, required_by = Q\<rparr> = Some (Inr T)"
  by (simp add: resolve_loop.simps)

text \<open>
  The requirement with which \<open>resolve\<close> starts: nothing is recorded for it, and its
  marker is evaluated under the supplied extras, or under the empty extra when none is
  supplied.
\<close>

lemma resolve_root:
  assumes "marker req = Some m"
  shows "resolve lib ws [req] env installer rc extras =
     (case any_evaluate lib m (case extras of None \<Rightarrow> [[]] | Some [] \<Rightarrow> [[]] | Some es \<Rightarrow> es) of
        Inl e \<Rightarrow> Some (Inl e)
      | Inr False \<Rightarrow> Some (Inr [])
      | Inr True \<Rightarrow>
          (case resolve_dist lib ws req Map.empty rc env installer Map.empty [] of
             Inl e \<Rightarrow> Some (Inl e)
           | Inr (d, req', b, ta) \<Rightarrow>
               (case requires d (req_extras req') of
                  Inl e \<Rightarrow> Some (Inl e)
                | Inr deps \<Rightarrow>
                    resolve_loop lib ws env installer rc extras
                      \<lparr>requirements = rev deps, processed = {hashCmp req'}, best = b,
                       to_activate = ta,
                       req_extras_map = register_req_extras (req_extras req') (rev deps) Map.empty,
                       required_by =
                         register_required_by (req_project_name req') (rev deps) Map.empty\<rparr>)))"
proof -
  let ?E = "case extras of None \<Rightarrow> [[]] | Some [] \<Rightarrow> [[]] | Some es \<Rightarrow> es"
  let ?st = "\<lparr>requirements = [], processed = {}, best = Map.empty, to_activate = [],
              req_extras_map = Map.empty, required_by = Map.empty\<rparr>"
  have mp: "markers_pass lib Map.empty req extras = any_evaluate lib m ?E"
    using assms by (simp add: markers_pass_def recorded_extras_def)
  have u: "resolve lib ws [req] env installer rc extras =
     (case resolve_step lib ws env installer rc extras req ?st of
        Inl e \<Rightarrow> Some (Inl e)
      | Inr st' \<Rightarrow> resolve_loop lib ws env installer rc extras st')"
    by (simp add: resolve_def
        resolve_loop.simps [of _ _ _ _ _ _ "\<lparr>requirements = [req], processed = {}, best = Map.empty,
          to_activate = [], req_extras_map = Map.empty, required_by = Map.empty\<rparr>"])
  show ?thesis
  proof (cases "any_evaluate lib m ?E")
    case (Inl e)
    then show ?thesis by (simp add: u resolve_step_def mp)
  next
    case (Inr pass)
    note ev = Inr
    show ?thesis
    proof (cases pass)
      case False
      then show ?thesis using ev by (simp add: u resolve_step_def mp resolve_loop_done)
    next
      case True
      note pass = True
      show ?thesis
      proof (cases "resolve_dist lib ws req Map.empty rc env installer Map.empty []")
        case (Inl e)
        then show ?thesis using ev pass by (simp add: u resolve_step_def mp)
      next
        case (Inr r)
        obtain d req' b ta where r: "r = (d, req', b, ta)" by (cases r)
        show ?thesis
        proof (cases "requires d (req_extras req')")
          case (Inl e)
          then show ?thesis using ev pass Inr r by (simp add: u resolve_step_def mp)
        next
          case (Inr deps)
          then show ?thesis
            using ev pass \<open>resolve_dist lib ws req Map.empty rc env installer Map.empty [] = Inr r\<close> r
            by (simp add: u resolve_step_def mp Let_def)
        qed
      qed
    qed
  qed
qed

text \<open>
  A requirement that the distribution of the first requirement demands: the extras of the
  first requirement are recorded for it, and its marker is evaluated under these followed
  by the supplied extras, or by the empty extra when none is supplied.
\<close>

lemma resolve_dependency:
  assumes root: "marker root = None"
    and rd: "resolve_dist lib ws root Map.empty rc env installer Map.empty [] = Inr (d, root', b, ta)"
    and rq: "requires d (req_extras root') = Inr [dep]"
    and ne: "hashCmp dep \<noteq> hashCmp root'"
    and m: "marker dep = Some m"
  shows "resolve lib ws [root] env installer rc extras =
     (case any_evaluate lib m
             (req_extras root' @ (case extras of None \<Rightarrow> [[]] | Some [] \<Rightarrow> [[]] | Some es \<Rightarrow> es)) of
        Inl e \<Rightarrow> Some (Inl e)
      | Inr False \<Rightarrow> Some (Inr ta)
      | Inr True \<Rightarrow>
          (case resolve_dist lib ws dep b rc env installer
                  [hashCmp dep \<mapsto> {req_project_name root'}] ta of
             Inl e \<Rightarrow> Some (Inl e)
           | Inr (d2, dep', b2, ta2) \<Rightarrow>
               (case requires d2 (req_extras dep') of
                  Inl e \<Rightarrow> Some (Inl e)
                | Inr deps \<Rightarrow>
                    resolve_loop lib ws env installer rc extras
                      \<lparr>requirements = rev deps, processed = {hashCmp dep', hashCmp root'},
                       best = b2, to_activate = ta2,
                       req_extras_map =
                         register_req_extras (req_extras dep') (rev deps)
                           [hashCmp dep \<mapsto> req_extras root'],
                       required_by =
                         register_required_by (req_project_name dep') (rev deps)
                           [hashCmp dep \<mapsto> {req_project_name root'}]\<rparr>)))"
proof -
  let ?E = "case extras of None \<Rightarrow> [[]] | Some [] \<Rightarrow> [[]] | Some es \<Rightarrow> es"
  let ?st0 = "\<lparr>requirements = [], processed = {}, best = Map.empty, to_activate = [],
               req_extras_map = Map.empty, required_by = Map.empty\<rparr>"
  let ?rx = "[hashCmp dep \<mapsto> req_extras root']"
  let ?rb = "[hashCmp dep \<mapsto> {req_project_name root'}]"
  let ?st1 = "\<lparr>requirements = [], processed = {hashCmp root'}, best = b, to_activate = ta,
               req_extras_map = ?rx, required_by = ?rb\<rparr>"
  let ?st1d = "\<lparr>requirements = [dep], processed = {hashCmp root'}, best = b, to_activate = ta,
               req_extras_map = ?rx, required_by = ?rb\<rparr>"
  have s0: "resolve_step lib ws env installer rc extras root ?st0 = Inr ?st1d"
    using root rd rq
    by (simp add: resolve_step_def markers_pass_def register_req_extras_def register_required_by_def)
  have u0: "resolve lib ws [root] env installer rc extras =
              resolve_loop lib ws env installer rc extras ?st1d"
    by (simp add: resolve_def s0
        resolve_loop.simps [of _ _ _ _ _ _ "\<lparr>requirements = [root], processed = {}, best = Map.empty,
          to_activate = [], req_extras_map = Map.empty, required_by = Map.empty\<rparr>"])
  have u1: "resolve_loop lib ws env installer rc extras ?st1d =
     (case resolve_step lib ws env installer rc extras dep ?st1 of
        Inl e \<Rightarrow> Some (Inl e)
      | Inr st' \<Rightarrow> resolve_loop lib ws env installer rc extras st')"
    by (simp add: resolve_loop.simps [of _ _ _ _ _ _ "\<lparr>requirements = [dep], processed = {hashCmp root'},
          best = b, to_activate = ta, req_extras_map = [hashCmp dep \<mapsto> req_extras root'],
          required_by = [hashCmp dep \<mapsto> {req_project_name root'}]\<rparr>"])
  have mp: "markers_pass lib ?rx dep extras = any_evaluate lib m (req_extras root' @ ?E)"
    using m by (simp add: markers_pass_def recorded_extras_def)
  show ?thesis
  proof (cases "any_evaluate lib m (req_extras root' @ ?E)")
    case (Inl e)
    then show ?thesis using ne by (simp add: u0 u1 resolve_step_def mp)
  next
    case (Inr pass)
    note ev = Inr
    show ?thesis
    proof (cases pass)
      case False
      then show ?thesis using ev ne by (simp add: u0 u1 resolve_step_def mp resolve_loop_done)
    next
      case True
      note pass = True
      show ?thesis
      proof (cases "resolve_dist lib ws dep b rc env installer ?rb ta")
        case (Inl e)
        then show ?thesis using ev pass ne by (simp add: u0 u1 resolve_step_def mp)
      next
        case (Inr r)
        note rdd = Inr
        obtain d2 dep' b2 ta2 where r: "r = (d2, dep', b2, ta2)" by (cases r)
        show ?thesis
        proof (cases "requires d2 (req_extras dep')")
          case (Inl e)
          then show ?thesis using ev pass ne rdd r by (simp add: u0 u1 resolve_step_def mp)
        next
          case (Inr deps)
          then show ?thesis
            using ev pass ne rdd r by (simp add: u0 u1 resolve_step_def mp Let_def)
        qed
      qed
    qed
  qed
qed

text \<open>
  Claim C9: the marker of a requirement is evaluated under the extras recorded as
  demanding it, which are the extras of the requirement whose distribution listed it,
  followed by the supplied extras when these are not empty, and by the empty extra
  otherwise: for the first requirement nothing is recorded. On the outcome of the
  evaluation the requirement is skipped or handed to \<open>_resolve_dist\<close>. So a requirement
  whose marker holds under the empty extra only is skipped when non-empty extras are
  supplied (\<open>resolve\<close> returns the empty list), and is resolved when \<open>extras\<close> is
  \<open>None\<close>: the outcome of \<open>_resolve_dist\<close> for it is then the outcome of \<open>resolve\<close>.
\<close>

theorem markers_pass_supplied_extras:
  assumes "marker dep = Some m"
  shows "resolve lib ws [dep] env installer rc extras =
     (case any_evaluate lib m (case extras of None \<Rightarrow> [[]] | Some [] \<Rightarrow> [[]] | Some es \<Rightarrow> es) of
        Inl e \<Rightarrow> Some (Inl e)
      | Inr False \<Rightarrow> Some (Inr [])
      | Inr True \<Rightarrow>
          (case resolve_dist lib ws dep Map.empty rc env installer Map.empty [] of
             Inl e \<Rightarrow> Some (Inl e)
           | Inr (d, dep', b, ta) \<Rightarrow>
               (case requires d (req_extras dep') of
                  Inl e \<Rightarrow> Some (Inl e)
                | Inr deps \<Rightarrow>
                    resolve_loop lib ws env installer rc extras
                      \<lparr>requirements = rev deps, processed = {hashCmp dep'}, best = b,
                       to_activate = ta,
                       req_extras_map = register_req_extras (req_extras dep') (rev deps) Map.empty,
                       required_by =
                         register_required_by (req_project_name dep') (rev deps) Map.empty\<rparr>)))
   \<and> (marker root = None
        \<and> resolve_dist lib ws root Map.empty rc env installer Map.empty [] = Inr (d, root', b, ta)
        \<and> requires d (req_extras root') = Inr [dep] \<and> hashCmp dep \<noteq> hashCmp root'
      \<longrightarrow> resolve lib ws [root] env installer rc extras =
            (case any_evaluate lib m
                    (req_extras root'
                     @ (case extras of None \<Rightarrow> [[]] | Some [] \<Rightarrow> [[]] | Some es \<Rightarrow> es)) of
               Inl e \<Rightarrow> Some (Inl e)
             | Inr False \<Rightarrow> Some (Inr ta)
             | Inr True \<Rightarrow>
                 (case resolve_dist lib ws dep b rc env installer
                         [hashCmp dep \<mapsto> {req_project_name root'}] ta of
                    Inl e \<Rightarrow> Some (Inl e)
                  | Inr (d2, dep', b2, ta2) \<Rightarrow>
                      (case requires d2 (req_extras dep') of
                         Inl e \<Rightarrow> Some (Inl e)
                       | Inr deps \<Rightarrow>
                           resolve_loop lib ws env installer rc extras
                             \<lparr>requirements = rev deps, processed = {hashCmp dep', hashCmp root'},
                              best = b2, to_activate = ta2,
                              req_extras_map =
                                register_req_extras (req_extras dep') (rev deps)
                                  [hashCmp dep \<mapsto> req_extras root'],
                              required_by =
                                register_required_by (req_project_name dep') (rev deps)
                                  [hashCmp dep \<mapsto> {req_project_name root'}]\<rparr>))))
   \<and> ((\<forall>e. marker_evaluate lib m e = Inr (e = [])) \<and> es \<noteq> [] \<and> [] \<notin> set es
      \<longrightarrow> resolve lib ws [dep] env installer rc (Some es) = Some (Inr [])
          \<and> (\<forall>e. resolve_dist lib ws dep Map.empty rc env installer Map.empty [] = Inl e
                \<longrightarrow> resolve lib ws [dep] env installer rc None = Some (Inl e))
          \<and> (\<forall>d1 dep1 b1 ta1.
                resolve_dist lib ws dep Map.empty rc env installer Map.empty [] = Inr (d1, dep1, b1, ta1)
                \<and> requires d1 (req_extras dep1) = Inr []
                \<longrightarrow> resolve lib ws [dep] env installer rc None = Some (Inr ta1)))"
proof -
  note r = resolve_root [OF assms]
  have c: "resolve lib ws [dep] env installer rc (Some es) = Some (Inr [])
          \<and> (\<forall>e. resolve_dist lib ws dep Map.empty rc env installer Map.empty [] = Inl e
                \<longrightarrow> resolve lib ws [dep] env installer rc None = Some (Inl e))
          \<and> (\<forall>d1 dep1 b1 ta1.
                resolve_dist lib ws dep Map.empty rc env installer Map.empty [] = Inr (d1, dep1, b1, ta1)
                \<and> requires d1 (req_extras dep1) = Inr []
                \<longrightarrow> resolve lib ws [dep] env installer rc None = Some (Inr ta1))"
    if ev: "\<forall>e. marker_evaluate lib m e = Inr (e = [])" and ne: "es \<noteq> []" and nm: "[] \<notin> set es"
  proof -
    have a: "any_evaluate lib m xs = Inr ([] \<in> set xs)" for xs
      using any_evaluate_only_empty [of lib m xs] ev by simp
    obtain e0 es0 where es: "es = e0 # es0" using ne by (cases es) auto
    have 1: "resolve lib ws [dep] env installer rc (Some es) = Some (Inr [])"
      using nm resolve_root [OF assms, of lib ws env installer rc "Some (e0 # es0)"]
      by (simp add: a es del: any_evaluate.simps)
    have 2: "resolve lib ws [dep] env installer rc None = Some (Inl e)"
      if "resolve_dist lib ws dep Map.empty rc env installer Map.empty [] = Inl e" for e
      using that resolve_root [OF assms, of lib ws env installer rc None]
      by (simp add: a del: any_evaluate.simps)
    have 3: "resolve lib ws [dep] env installer rc None = Some (Inr ta1)"
      if "resolve_dist lib ws dep Map.empty rc env installer Map.empty [] = Inr (d1, dep1, b1, ta1)"
        and "requires d1 (req_extras dep1) = Inr []" for d1 dep1 b1 ta1
      using that resolve_root [OF assms, of lib ws env installer rc None]
      by (simp add: a resolve_loop_done del: any_evaluate.simps)
    show ?thesis using 1 2 3 by blast
  qed
  show ?thesis
    using r [of lib ws env installer rc extras] resolve_dependency [OF _ _ _ _ assms] c by blast
qed

lemma pkg_base_only_fields:
  "req_key pkg_base_only = ''pkg''" "marker pkg_base_only = Some ''extra == \"\"''"
  "specifier pkg_base_only = []" "req_extras pkg_base_only = []"
  "req_project_name pkg_base_only = ''pkg''"
  by (simp_all add: pkg_base_only_def Requirement_init_def safe_name_def lower_def lower_char_def
      is_alnum_def is_digit_def Let_def)

lemma resolve_dist_pkg_base_only:
  "resolve_dist release_packaging empty_WorkingSet pkg_base_only Map.empty False
     (Some (env_of [pkg_dist ''1.5'' None])) None Map.empty []
   = Inr (pkg_dist ''1.5'' None, pkg_base_only, [''pkg'' \<mapsto> pkg_dist ''1.5'' None],
          [pkg_dist ''1.5'' None])"
proof -
  have c: "dist_in_req release_packaging (pkg_dist ''1.5'' None) pkg_base_only = Inr True"
    by (simp add: dist_in_req_def Requirement_contains_def key_pkg_dist pkg_base_only_fields)
       (simp add: pkg_dist_def release_packaging_def pkg_base_only_fields)
  have f: "find release_packaging empty_WorkingSet pkg_base_only = (pkg_base_only, Inr None)"
    by (simp add: find_def find_candidates_def empty_WorkingSet_def List.map_filter_simps
        pkg_base_only_fields safe_name_pkg)
  have bm: "best_match release_packaging (env_of [pkg_dist ''1.5'' None]) pkg_base_only
              empty_WorkingSet None False = (pkg_base_only, Inr (Some (pkg_dist ''1.5'' None)))"
    by (simp add: best_match_def f pkg_base_only_fields getitem_def env_of_def lower_def
        lower_char_def c)
  have e: "by_key empty_WorkingSet ''pkg'' = None"
    by (simp add: empty_WorkingSet_def)
  show ?thesis
    by (simp add: resolve_dist_def pkg_base_only_fields e bm c)
qed

lemma req_example_fields:
  "req_key app_test = ''app''" "marker app_test = None" "specifier app_test = []"
  "req_extras app_test = [''test'']" "req_project_name app_test = ''app''"
  "req_key pkg_if_test = ''pkg''" "marker pkg_if_test = Some ''extra == \"test\"''"
  "specifier pkg_if_test = []" "req_extras pkg_if_test = []"
  "req_project_name pkg_if_test = ''pkg''" "hashCmp pkg_if_test \<noteq> hashCmp app_test"
  by (simp_all add: app_test_def pkg_if_test_def Requirement_init_def safe_name_def safe_extra_def
      lower_def lower_char_def is_alnum_def is_digit_def Let_def)

lemma app_dist_facts:
  "key app_dist = ''app''" "version app_dist = Some ''2.0''"
  "requires app_dist [''test''] = Inr [pkg_if_test]"
  by (simp_all add: app_dist_def key_def requires_def safe_extra_def lower_def lower_char_def
      is_alnum_def is_digit_def)

lemma find_empty_WorkingSet:
  "find lib empty_WorkingSet req = (req, Inr None)"
  by (simp add: find_def find_candidates_def empty_WorkingSet_def List.map_filter_simps)

lemma resolve_dist_app_test:
  "resolve_dist release_packaging empty_WorkingSet app_test Map.empty False (Some env_app) None
     Map.empty []
   = Inr (app_dist, app_test, [''app'' \<mapsto> app_dist], [app_dist])"
proof -
  have c: "dist_in_req release_packaging app_dist app_test = Inr True"
    by (simp add: dist_in_req_def Requirement_contains_def app_dist_facts req_example_fields
        release_packaging_def)
  have g: "getitem env_app ''app'' = [app_dist]"
    by (simp add: getitem_def env_app_def lower_def lower_char_def)
  have bm: "best_match release_packaging env_app app_test empty_WorkingSet None False
              = (app_test, Inr (Some app_dist))"
    by (simp add: best_match_def find_empty_WorkingSet req_example_fields g c)
  have e: "by_key empty_WorkingSet ''app'' = None"
    by (simp add: empty_WorkingSet_def)
  show ?thesis
    by (simp add: resolve_dist_def req_example_fields e bm c)
qed

lemma resolve_dist_pkg_if_test:
  "resolve_dist release_packaging empty_WorkingSet pkg_if_test [''app'' \<mapsto> app_dist] False
     (Some env_app) None [hashCmp pkg_if_test \<mapsto> {''app''}] [app_dist]
   = Inr (pkg_dist ''1.5'' None, pkg_if_test,
          [''app'' \<mapsto> app_dist, ''pkg'' \<mapsto> pkg_dist ''1.5'' None],
          [app_dist, pkg_dist ''1.5'' None])"
proof -
  have c: "dist_in_req release_packaging (pkg_dist ''1.5'' None) pkg_if_test = Inr True"
    by (simp add: dist_in_req_def Requirement_contains_def key_pkg_dist req_example_fields)
       (simp add: pkg_dist_def release_packaging_def req_example_fields)
  have g: "getitem env_app ''pkg'' = [pkg_dist ''1.5'' None]"
    by (simp add: getitem_def env_app_def lower_def lower_char_def)
  have bm: "best_match release_packaging env_app pkg_if_test empty_WorkingSet None False
              = (pkg_if_test, Inr (Some (pkg_dist ''1.5'' None)))"
    by (simp add: best_match_def find_empty_WorkingSet req_example_fields g c)
  have e: "by_key empty_WorkingSet ''pkg'' = None"
    by (simp add: empty_WorkingSet_def)
  show ?thesis
    by (simp add: resolve_dist_def req_example_fields e bm c)
qed

theorem markers_pass_supplied_extras_witness:
  "resolve release_packaging empty_WorkingSet [pkg_base_only]
     (Some (env_of [pkg_dist ''1.5'' None])) None False (Some [''test'']) = Some (Inr [])
   \<and> resolve release_packaging empty_WorkingSet [pkg_base_only]
       (Some (env_of [pkg_dist ''1.5'' None])) None False None = Some (Inr [pkg_dist ''1.5'' None])
   \<and> resolve release_packaging empty_WorkingSet [pkg_if_test] (Some env_app) None False
       (Some [''other'']) = Some (Inr [])
   \<and> resolve release_packaging empty_WorkingSet [app_test] (Some env_app) None False
       (Some [''other'']) = Some (Inr [app_dist, pkg_dist ''1.5'' None])
   \<and> resolve release_packaging empty_WorkingSet [app_test] (Some env_app) None False
       None = Some (Inr [app_dist, pkg_dist ''1.5'' None])"
proof -
  have ev: "\<forall>e. marker_evaluate release_packaging ''extra == \"\"'' e = Inr (e = [])"
    by (auto simp add: release_packaging_def)
  have rq: "requires (pkg_dist ''1.5'' None) [] = Inr []"
    by (simp add: requires_def pkg_dist_def)
  have et: "marker_evaluate release_packaging ''extra == \"test\"'' e = Inr (e = ''test'')" for e
    by (auto simp add: release_packaging_def)
  have t: "(\<forall>e. marker_evaluate release_packaging ''extra == \"\"'' e = Inr (e = []))
            \<and> [''test''] \<noteq> [] \<and> [] \<notin> set [''test'']
      \<longrightarrow> resolve release_packaging empty_WorkingSet [pkg_base_only]
            (Some (env_of [pkg_dist ''1.5'' None])) None False (Some [''test'']) = Some (Inr [])
          \<and> (\<forall>d1 dep1 b1 ta1.
                resolve_dist release_packaging empty_WorkingSet pkg_base_only Map.empty False
                  (Some (env_of [pkg_dist ''1.5'' None])) None Map.empty [] = Inr (d1, dep1, b1, ta1)
                \<and> requires d1 (req_extras dep1) = Inr []
                \<longrightarrow> resolve release_packaging empty_WorkingSet [pkg_base_only]
                      (Some (env_of [pkg_dist ''1.5'' None])) None False None = Some (Inr ta1))"
    using markers_pass_supplied_extras [OF pkg_base_only_fields(2),
        where lib = release_packaging and ws = empty_WorkingSet
          and env = "Some (env_of [pkg_dist ''1.5'' None])" and installer = None and rc = False
          and es = "[''test'']"]
    by blast
  from t ev have a: "resolve release_packaging empty_WorkingSet [pkg_base_only]
     (Some (env_of [pkg_dist ''1.5'' None])) None False (Some [''test'']) = Some (Inr [])"
    by simp
  from t ev resolve_dist_pkg_base_only rq
  have b: "resolve release_packaging empty_WorkingSet [pkg_base_only]
     (Some (env_of [pkg_dist ''1.5'' None])) None False None = Some (Inr [pkg_dist ''1.5'' None])"
    by (simp add: pkg_base_only_fields)
  have u: "resolve release_packaging empty_WorkingSet [pkg_if_test] (Some env_app) None False extras =
     (case any_evaluate release_packaging ''extra == \"test\"''
             (case extras of None \<Rightarrow> [[]] | Some [] \<Rightarrow> [[]] | Some es \<Rightarrow> es) of
        Inl e \<Rightarrow> Some (Inl e)
      | Inr False \<Rightarrow> Some (Inr [])
      | Inr True \<Rightarrow>
          (case resolve_dist release_packaging empty_WorkingSet pkg_if_test Map.empty False
                  (Some env_app) None Map.empty [] of
             Inl e \<Rightarrow> Some (Inl e)
           | Inr (d, dep', b, ta) \<Rightarrow>
               (case requires d (req_extras dep') of
                  Inl e \<Rightarrow> Some (Inl e)
                | Inr deps \<Rightarrow>
                    resolve_loop release_packaging empty_WorkingSet (Some env_app) None False extras
                      \<lparr>requirements = rev deps, processed = {hashCmp dep'}, best = b,
                       to_activate = ta,
                       req_extras_map = register_req_extras (req_extras dep') (rev deps) Map.empty,
                       required_by =
                         register_required_by (req_project_name dep') (rev deps) Map.empty\<rparr>)))"
    for extras
    using markers_pass_supplied_extras [OF req_example_fields(7),
        where lib = release_packaging and ws = empty_WorkingSet and env = "Some env_app"
          and installer = None and rc = False and extras = extras]
    by blast
  have c: "resolve release_packaging empty_WorkingSet [pkg_if_test] (Some env_app) None False
       (Some [''other'']) = Some (Inr [])"
    by (simp add: u et)
  have v: "resolve release_packaging empty_WorkingSet [app_test] (Some env_app) None False extras =
            (case any_evaluate release_packaging ''extra == \"test\"''
                    (req_extras app_test
                     @ (case extras of None \<Rightarrow> [[]] | Some [] \<Rightarrow> [[]] | Some es \<Rightarrow> es)) of
               Inl e \<Rightarrow> Some (Inl e)
             | Inr False \<Rightarrow> Some (Inr [app_dist])
             | Inr True \<Rightarrow>
                 (case resolve_dist release_packaging empty_WorkingSet pkg_if_test
                         [''app'' \<mapsto> app_dist] False (Some env_app) None
                         [hashCmp pkg_if_test \<mapsto> {req_project_name app_test}] [app_dist] of
                    Inl e \<Rightarrow> Some (Inl e)
                  | Inr (d2, dep', b2, ta2) \<Rightarrow>
                      (case requires d2 (req_extras dep') of
                         Inl e \<Rightarrow> Some (Inl e)
                       | Inr deps \<Rightarrow>
                           resolve_loop release_packaging empty_WorkingSet (Some env_app) None False extras
                             \<lparr>requirements = rev deps, processed = {hashCmp dep', hashCmp app_test},
                              best = b2, to_activate = ta2,
                              req_extras_map =
                                register_req_extras (req_extras dep') (rev deps)
                                  [hashCmp pkg_if_test \<mapsto> req_extras app_test],
                              required_by =
                                register_required_by (req_project_name dep') (rev deps)
                                  [hashCmp pkg_if_test \<mapsto> {req_project_name app_test}]\<rparr>)))"
    for extras
    using markers_pass_supplied_extras [OF req_example_fields(7),
        where lib = release_packaging and ws = empty_WorkingSet and env = "Some env_app"
          and installer = None and rc = False and extras = extras and root = app_test
          and d = app_dist and root' = app_test and b = "[''app'' \<mapsto> app_dist]"
          and ta = "[app_dist]"]
      resolve_dist_app_test app_dist_facts(3) req_example_fields(2,4,11)
    by simp
  have d: "resolve release_packaging empty_WorkingSet [app_test] (Some env_app) None False
       extras = Some (Inr [app_dist, pkg_dist ''1.5'' None])" for extras
    by (simp add: v req_example_fields et resolve_dist_pkg_if_test rq resolve_loop_done)
  show ?thesis using a b c d by simp
qed

subsection \<open>The ordering of distributions\<close>

lemma tuple_lt_irrefl: "tuple_lt a a = Inr False"
  by (cases a) simp

lemma tuple_lt_total:
  "tuple_lt a b = Inr False \<Longrightarrow> a \<noteq> b \<Longrightarrow> tuple_lt b a = Inr True"
  by (cases a; cases b) (auto split: if_splits option.splits)

lemma tuple_lt_trans:
  "tuple_lt a b = Inr True \<Longrightarrow> tuple_lt b c = Inr True \<Longrightarrow> tuple_lt a c = Inr True"
  by (cases a; cases b; cases c) (auto split: if_splits option.splits)

declare tuple_lt.simps [simp del]

lemma keyed_snd: "keyed lib ds = Inr ks \<Longrightarrow> map snd ks = ds"
  by (induction ds arbitrary: ks) (auto split: sum.splits)

lemma insert_desc_Cons:
  "insert_desc x (y # ys) = Inr r \<Longrightarrow>
     (tuple_lt (fst x) (fst y) = Inr True \<and> (\<exists>r'. insert_desc x ys = Inr r' \<and> r = y # r'))
     \<or> (tuple_lt (fst x) (fst y) = Inr False \<and> r = x # y # ys)"
proof -
  assume a: "insert_desc x (y # ys) = Inr r"
  show ?thesis
  proof (cases "tuple_lt (fst x) (fst y)")
    case (Inl e)
    with a show ?thesis by simp
  next
    case (Inr b)
    show ?thesis
    proof (cases b)
      case True
      with Inr a show ?thesis by (cases "insert_desc x ys") simp_all
    next
      case False
      with Inr a show ?thesis by simp
    qed
  qed
qed

lemma set_insert_desc: "insert_desc x ys = Inr r \<Longrightarrow> set r = insert x (set ys)"
proof (induction ys arbitrary: r)
  case Nil
  then show ?case by auto
next
  case (Cons y ys)
  from insert_desc_Cons [OF Cons.prems] show ?case
  proof
    assume "tuple_lt (fst x) (fst y) = Inr True \<and> (\<exists>r'. insert_desc x ys = Inr r' \<and> r = y # r')"
    then obtain r' where "insert_desc x ys = Inr r'" and "r = y # r'" by blast
    then show ?thesis using Cons.IH by auto
  next
    assume "tuple_lt (fst x) (fst y) = Inr False \<and> r = x # y # ys"
    then show ?thesis by auto
  qed
qed

lemma sorted_insert_desc:
  "insert_desc x ys = Inr r \<Longrightarrow> sorted_wrt key_gt ys \<Longrightarrow> fst x \<notin> fst ` set ys
     \<Longrightarrow> sorted_wrt key_gt r"
proof (induction ys arbitrary: r)
  case Nil
  then show ?case by auto
next
  case (Cons y ys)
  from insert_desc_Cons [OF Cons.prems(1)] show ?case
  proof
    assume "tuple_lt (fst x) (fst y) = Inr True \<and> (\<exists>r'. insert_desc x ys = Inr r' \<and> r = y # r')"
    then obtain r' where lt: "tuple_lt (fst x) (fst y) = Inr True"
      and r': "insert_desc x ys = Inr r'" and r: "r = y # r'" by blast
    have "sorted_wrt key_gt r'" using Cons.IH [OF r'] Cons.prems by auto
    moreover have "\<forall>z \<in> set r'. key_gt y z"
      using set_insert_desc [OF r'] Cons.prems(2) lt by (auto simp add: key_gt_def)
    ultimately show ?thesis using r by simp
  next
    assume "tuple_lt (fst x) (fst y) = Inr False \<and> r = x # y # ys"
    then have nlt: "tuple_lt (fst x) (fst y) = Inr False" and r: "r = x # y # ys" by simp_all
    have ne: "fst x \<noteq> fst y" using Cons.prems(3) by auto
    have xy: "key_gt x y"
      using tuple_lt_total [OF nlt ne] by (simp add: key_gt_def)
    have "\<forall>z \<in> set ys. key_gt x z"
    proof
      fix z assume "z \<in> set ys"
      then have "key_gt y z" using Cons.prems(2) by simp
      then show "key_gt x z" using xy tuple_lt_trans unfolding key_gt_def by blast
    qed
    then show ?thesis using r xy Cons.prems(2) by simp
  qed
qed

lemma sort_pairs_desc_sound:
  "sort_pairs_desc ks = Inr r \<Longrightarrow> distinct (map fst ks)
     \<Longrightarrow> sorted_wrt key_gt r \<and> set r = set ks"
proof (induction ks arbitrary: r)
  case Nil
  then show ?case by simp
next
  case (Cons x ks)
  from Cons.prems(1) obtain r' where r': "sort_pairs_desc ks = Inr r'" and r: "insert_desc x r' = Inr r"
    by (cases "sort_pairs_desc ks") simp_all
  have ih: "sorted_wrt key_gt r' \<and> set r' = set ks" using Cons.IH [OF r'] Cons.prems(2) by simp
  have "fst x \<notin> fst ` set r'" using ih Cons.prems(2) by auto
  then show ?case using sorted_insert_desc [OF r] set_insert_desc [OF r] ih by auto
qed

lemma keyed_Cons:
  "keyed lib (d # ds) = Inr ks \<Longrightarrow>
     \<exists>h ks'. hashcmp lib d = Inr h \<and> keyed lib ds = Inr ks' \<and> ks = (h, d) # ks'"
  by (cases "hashcmp lib d"; cases "keyed lib ds") simp_all

lemma keyed_elem: "keyed lib ds = Inr ks \<Longrightarrow> x \<in> set ks \<Longrightarrow> hashcmp lib (snd x) = Inr (fst x)"
proof (induction ds arbitrary: ks)
  case Nil
  then show ?case by simp
next
  case (Cons d ds)
  from keyed_Cons [OF Cons.prems(1)] obtain h ks' where h: "hashcmp lib d = Inr h"
    and ks': "keyed lib ds = Inr ks'" and ks: "ks = (h, d) # ks'" by blast
  show ?case
  proof (cases "x = (h, d)")
    case True
    then show ?thesis using h by simp
  next
    case False
    then have "x \<in> set ks'" using Cons.prems(2) ks by simp
    then show ?thesis by (rule Cons.IH [OF ks'])
  qed
qed

lemma keyed_fst_in:
  "keyed lib ds = Inr ks \<Longrightarrow> x \<in> set ks \<Longrightarrow> Inr (fst x) \<in> hashcmp lib ` set ds"
proof -
  assume k: "keyed lib ds = Inr ks" and x: "x \<in> set ks"
  have "snd x \<in> set ds" using keyed_snd [OF k] x by (metis imageI set_map)
  moreover have "hashcmp lib (snd x) = Inr (fst x)" by (rule keyed_elem [OF k x])
  ultimately show ?thesis by (metis imageI)
qed

lemma keyed_distinct:
  "keyed lib ds = Inr ks \<Longrightarrow> distinct (map (hashcmp lib) ds) \<Longrightarrow> distinct (map fst ks)"
proof (induction ds arbitrary: ks)
  case Nil
  then show ?case by simp
next
  case (Cons d ds)
  from keyed_Cons [OF Cons.prems(1)] obtain h ks' where h: "hashcmp lib d = Inr h"
    and ks': "keyed lib ds = Inr ks'" and ks: "ks = (h, d) # ks'" by blast
  have "h \<notin> fst ` set ks'"
  proof
    assume "h \<in> fst ` set ks'"
    then obtain x where "x \<in> set ks'" and "fst x = h" by blast
    then have "Inr h \<in> hashcmp lib ` set ds" using keyed_fst_in [OF ks'] by blast
    then show False using Cons.prems(2) h by simp
  qed
  moreover have "distinct (map fst ks')" using Cons.IH [OF ks'] Cons.prems(2) by simp
  ultimately show ?case using ks by simp
qed

lemma sort_desc_sound:
  assumes "sort_desc lib ds = Inr l" and "distinct (map (hashcmp lib) ds)"
  shows "sorted_wrt (precedes lib) l \<and> set l = set ds"
proof -
  from assms(1) obtain ks r where ks: "keyed lib ds = Inr ks"
    and r: "sort_pairs_desc ks = Inr r" and l: "l = map snd r"
    by (cases "keyed lib ds"; cases "sort_pairs_desc (projr (keyed lib ds))")
       (auto simp add: sort_desc_def)
  have "distinct (map fst ks)" by (rule keyed_distinct [OF ks assms(2)])
  then have s: "sorted_wrt key_gt r" and e: "set r = set ks"
    using sort_pairs_desc_sound [OF r] by simp_all
  have "sorted_wrt (\<lambda>a b. precedes lib (snd a) (snd b)) r"
  proof (rule sorted_wrt_mono_rel [OF _ s])
    fix a b assume "a \<in> set r" and "b \<in> set r" and "key_gt a b"
    then show "precedes lib (snd a) (snd b)"
      using e keyed_elem [OF ks] by (simp add: key_gt_def precedes_def)
  qed
  then have "sorted_wrt (precedes lib) l" using l by (simp add: sorted_wrt_map)
  moreover have "set l = snd ` set ks" using l e by simp
  then have "set l = set ds" using keyed_snd [OF ks] by (metis set_map)
  ultimately show ?thesis by simp
qed

lemma map_of_dict_set: "map_of (dict_set k v m) = (map_of m)(k \<mapsto> v)"
  by (induction m) auto

lemma fst_dict_set:
  "map fst (dict_set k v m) = (if k \<in> set (map fst m) then map fst m else map fst m @ [k])"
  by (induction m) (auto simp add: image_iff, force+)

lemma distinct_dict_set: "distinct (map fst m) \<Longrightarrow> distinct (map fst (dict_set k v m))"
  by (simp add: fst_dict_set)

lemma list_all_dict_set: "list_all P m \<Longrightarrow> P (k, v) \<Longrightarrow> list_all P (dict_set k v m)"
  by (induction m) auto

lemma can_add_distmap [simp]: "can_add (env\<lparr>distmap := m\<rparr>) d = can_add env d"
  by (simp add: can_add_def)

lemma list_inv_distmap [simp]: "list_inv lib (env\<lparr>distmap := m\<rparr>) ds = list_inv lib env ds"
  by (simp add: list_inv_def)

lemma env_inv_dict_set:
  assumes "env_inv lib env" and "list_inv lib env v"
  shows "env_inv lib (env\<lparr>distmap := dict_set k v (distmap env)\<rparr>)"
  using assms by (simp add: env_inv_def distinct_dict_set list_all_dict_set)

lemma env_inv_lookup: "env_inv lib env \<Longrightarrow> list_inv lib env (lookup env k)"
proof -
  assume inv: "env_inv lib env"
  show ?thesis
  proof (cases "map_of (distmap env) k")
    case None
    then show ?thesis by (simp add: lookup_def list_inv_def)
  next
    case (Some ds)
    then have "(k, ds) \<in> set (distmap env)" by (rule map_of_SomeD)
    then have "list_inv lib env ds" using inv by (auto simp add: env_inv_def list_all_iff)
    then show ?thesis using Some by (simp add: lookup_def)
  qed
qed

lemma precedes_neq: "precedes lib a b \<Longrightarrow> hashcmp lib a \<noteq> hashcmp lib b"
  by (cases "hashcmp lib a"; cases "hashcmp lib b") (auto simp add: precedes_def tuple_lt_irrefl)

lemma sorted_precedes_distinct: "sorted_wrt (precedes lib) l \<Longrightarrow> distinct (map (hashcmp lib) l)"
proof (induction l)
  case Nil
  then show ?case by simp
next
  case (Cons a l)
  have "hashcmp lib a \<notin> hashcmp lib ` set l"
  proof
    assume "hashcmp lib a \<in> hashcmp lib ` set l"
    then obtain b where "b \<in> set l" and "hashcmp lib a = hashcmp lib b" by blast
    then show False using Cons.prems precedes_neq by auto
  qed
  then show ?case using Cons by simp
qed

lemma dist_eq_False: "dist_eq lib x d = Inr False \<Longrightarrow> hashcmp lib x \<noteq> hashcmp lib d"
  by (cases "hashcmp lib x"; cases "hashcmp lib d") (simp_all add: dist_eq_def)

lemma dist_eq_True: "dist_eq lib x d = Inr True \<Longrightarrow> hashcmp lib x = hashcmp lib d"
  by (cases "hashcmp lib x"; cases "hashcmp lib d") (simp_all add: dist_eq_def)

lemma dist_in_list_Cons:
  "dist_in_list lib d (x # xs) = Inr b \<Longrightarrow>
     (dist_eq lib x d = Inr True \<and> b) \<or> (dist_eq lib x d = Inr False \<and> dist_in_list lib d xs = Inr b)"
proof -
  assume a: "dist_in_list lib d (x # xs) = Inr b"
  show ?thesis
  proof (cases "dist_eq lib x d")
    case (Inl e)
    with a show ?thesis by simp
  next
    case (Inr c)
    with a show ?thesis by (cases c) simp_all
  qed
qed

lemma dist_in_list_False:
  "dist_in_list lib d xs = Inr False \<Longrightarrow> hashcmp lib d \<notin> hashcmp lib ` set xs"
proof (induction xs)
  case Nil
  then show ?case by simp
next
  case (Cons x xs)
  from dist_in_list_Cons [OF Cons.prems]
  have "dist_eq lib x d = Inr False" and "dist_in_list lib d xs = Inr False" by auto
  then show ?case using Cons.IH dist_eq_False by fastforce
qed

lemma dist_in_list_True:
  "dist_in_list lib d xs = Inr True \<Longrightarrow> \<exists>x \<in> set xs. hashcmp lib x = hashcmp lib d"
proof (induction xs)
  case Nil
  then show ?case by simp
next
  case (Cons x xs)
  from dist_in_list_Cons [OF Cons.prems] show ?case
  proof
    assume "dist_eq lib x d = Inr True \<and> True"
    then show ?thesis using dist_eq_True by fastforce
  next
    assume "dist_eq lib x d = Inr False \<and> dist_in_list lib d xs = Inr True"
    then show ?thesis using Cons.IH by auto
  qed
qed

text \<open>The three ways in which add returns.\<close>

lemma add_cases:
  assumes "add lib env dist = (None, env')"
  obtains (skip) "\<not> (can_add env dist \<and> has_version dist)" and "env' = env"
  | (present) "can_add env dist" and "has_version dist"
      and "dist_in_list lib dist (lookup env (key dist)) = Inr True"
      and "env' = env\<lparr>distmap := dict_set (key dist) (lookup env (key dist)) (distmap env)\<rparr>"
  | (added) l where "can_add env dist" and "has_version dist"
      and "dist_in_list lib dist (lookup env (key dist)) = Inr False"
      and "sort_desc lib (lookup env (key dist) @ [dist]) = Inr l"
      and "env' = env\<lparr>distmap := dict_set (key dist) l (distmap env)\<rparr>"
proof (cases "can_add env dist \<and> has_version dist")
  case False
  then have "env' = env" using assms by (auto simp add: add_def)
  with False show ?thesis by (rule skip)
next
  case True
  show ?thesis
  proof (cases "dist_in_list lib dist (lookup env (key dist))")
    case (Inl e)
    then show ?thesis using assms True by (simp add: add_def lookup_def)
  next
    case (Inr b)
    show ?thesis
    proof (cases b)
      case True
      with Inr \<open>can_add env dist \<and> has_version dist\<close> assms show ?thesis
        by (intro present) (simp_all add: add_def lookup_def)
    next
      case False
      show ?thesis
      proof (cases "sort_desc lib (lookup env (key dist) @ [dist])")
        case (Inl e)
        then show ?thesis using assms \<open>can_add env dist \<and> has_version dist\<close> Inr False
          by (simp add: add_def lookup_def)
      next
        case (Inr l)
        with \<open>dist_in_list lib dist (lookup env (key dist)) = Inr b\<close> False
          \<open>can_add env dist \<and> has_version dist\<close> assms show ?thesis
          by (intro added [of l]) (simp_all add: add_def lookup_def)
      qed
    qed
  qed
qed


subsection \<open>The invariant of Environment.add\<close>

lemma set_sort_pairs_desc: "sort_pairs_desc ks = Inr r \<Longrightarrow> set r = set ks"
proof (induction ks arbitrary: r)
  case Nil
  then show ?case by simp
next
  case (Cons x ks)
  from Cons.prems obtain r' where r': "sort_pairs_desc ks = Inr r'" and r: "insert_desc x r' = Inr r"
    by (cases "sort_pairs_desc ks") simp_all
  show ?case using set_insert_desc [OF r] Cons.IH [OF r'] by simp
qed

lemma set_sort_desc: "sort_desc lib ds = Inr l \<Longrightarrow> set l = set ds"
proof -
  assume a: "sort_desc lib ds = Inr l"
  then obtain ks r where ks: "keyed lib ds = Inr ks"
    and r: "sort_pairs_desc ks = Inr r" and l: "l = map snd r"
    by (cases "keyed lib ds"; cases "sort_pairs_desc (projr (keyed lib ds))")
       (auto simp add: sort_desc_def)
  have "set l = snd ` set ks" using l set_sort_pairs_desc [OF r] by simp
  then show ?thesis using keyed_snd [OF ks] by (metis set_map)
qed

text \<open>When the ordering tuples are comparable the sort returns.\<close>

lemma tuple_lt_asym: "tuple_lt a b = Inr True \<Longrightarrow> tuple_lt b a = Inr False"
  by (cases a; cases b) (auto simp add: tuple_lt.simps split: if_splits option.splits)

lemma insert_desc_total:
  "(\<And>y. y \<in> set ys \<Longrightarrow> \<not> isl (tuple_lt (fst x) (fst y))) \<Longrightarrow> \<exists>r. insert_desc x ys = Inr r"
proof (induction ys)
  case Nil
  then show ?case by simp
next
  case (Cons y ys)
  have "\<not> isl (tuple_lt (fst x) (fst y))" using Cons.prems by simp
  then obtain b where b: "tuple_lt (fst x) (fst y) = Inr b"
    by (cases "tuple_lt (fst x) (fst y)") simp_all
  obtain r where r: "insert_desc x ys = Inr r" using Cons by auto
  show ?case using b r by (cases b) simp_all
qed

lemma sort_pairs_desc_total:
  "(\<And>x y. x \<in> set ks \<Longrightarrow> y \<in> set ks \<Longrightarrow> \<not> isl (tuple_lt (fst x) (fst y)))
     \<Longrightarrow> \<exists>r. sort_pairs_desc ks = Inr r"
proof (induction ks)
  case Nil
  then show ?case by simp
next
  case (Cons x ks)
  obtain r' where r': "sort_pairs_desc ks = Inr r'" using Cons by auto
  have "set r' = set ks" by (rule set_sort_pairs_desc [OF r'])
  then have "\<exists>r. insert_desc x r' = Inr r"
    using Cons.prems by (intro insert_desc_total) simp
  then show ?case using r' by simp
qed

lemma keyed_total: "(\<And>d. d \<in> set ds \<Longrightarrow> has_version d) \<Longrightarrow> \<exists>ks. keyed lib ds = Inr ks"
proof (induction ds)
  case Nil
  then show ?case by simp
next
  case (Cons d ds)
  have "has_version d" using Cons.prems by simp
  then obtain h where h: "hashcmp lib d = Inr h"
    by (auto simp add: has_version_def hashcmp_def)
  obtain ks where ks: "keyed lib ds = Inr ks" using Cons by auto
  show ?case using h ks by simp
qed

lemma sort_desc_total:
  assumes "\<And>d. d \<in> set ds \<Longrightarrow> has_version d"
    and "\<And>a b. a \<in> set ds \<Longrightarrow> b \<in> set ds \<Longrightarrow> comparable lib a b"
  shows "\<exists>l. sort_desc lib ds = Inr l"
proof -
  obtain ks where ks: "keyed lib ds = Inr ks" using keyed_total [OF assms(1)] by blast
  have "\<not> isl (tuple_lt (fst x) (fst y))" if x: "x \<in> set ks" and y: "y \<in> set ks" for x y
  proof -
    have sx: "snd x \<in> set ds" and sy: "snd y \<in> set ds"
      using keyed_snd [OF ks] x y by (metis imageI set_map)+
    have "hashcmp lib (snd x) = Inr (fst x)" and "hashcmp lib (snd y) = Inr (fst y)"
      using keyed_elem [OF ks] x y by simp_all
    then show ?thesis using assms(2) [OF sx sy] by (simp add: comparable_def)
  qed
  then obtain r where "sort_pairs_desc ks = Inr r" using sort_pairs_desc_total by blast
  then show ?thesis using ks by (simp add: sort_desc_def)
qed

lemma dist_in_list_total:
  "(\<And>x. x \<in> set xs \<Longrightarrow> has_version x) \<Longrightarrow> has_version d \<Longrightarrow> \<exists>b. dist_in_list lib d xs = Inr b"
proof (induction xs)
  case Nil
  show ?case by auto
next
  case (Cons x xs)
  have "has_version x" using Cons.prems by simp
  then obtain c where c: "dist_eq lib x d = Inr c"
    using Cons.prems(2) by (auto simp add: has_version_def hashcmp_def dist_eq_def)
  obtain b where b: "dist_in_list lib d xs = Inr b" using Cons by auto
  show ?case using b c by (cases c) auto
qed

lemma comparable_refl: "has_version d \<Longrightarrow> comparable lib d d"
proof -
  assume "has_version d"
  then obtain h where "hashcmp lib d = Inr h" by (auto simp add: has_version_def hashcmp_def)
  then show ?thesis by (simp add: comparable_def tuple_lt_irrefl)
qed

lemma comparable_sym: "comparable lib a b \<Longrightarrow> comparable lib b a"
  by (cases "hashcmp lib a"; cases "hashcmp lib b") (simp_all add: comparable_def)

lemma precedes_comparable: "precedes lib a b \<Longrightarrow> comparable lib a b"
  by (cases "hashcmp lib a"; cases "hashcmp lib b")
     (auto simp add: precedes_def comparable_def dest: tuple_lt_asym)

lemma sorted_wrt_related:
  "sorted_wrt P xs \<Longrightarrow> a \<in> set xs \<Longrightarrow> b \<in> set xs \<Longrightarrow> a = b \<or> P a b \<or> P b a"
  by (induction xs) auto

lemma list_inv_comparable:
  assumes "list_inv lib env ds" and "a \<in> set ds" and "b \<in> set ds"
  shows "comparable lib a b"
proof -
  have s: "sorted_wrt (precedes lib) ds" and v: "has_version a"
    using assms by (simp_all add: list_inv_def list_all_iff)
  from sorted_wrt_related [OF s assms(2,3)] show ?thesis
    using v comparable_refl precedes_comparable comparable_sym by blast
qed

lemma add_returns:
  assumes inv: "env_inv lib env"
    and cmp: "\<And>d. has_version dist \<Longrightarrow> d \<in> set (lookup env (key dist)) \<Longrightarrow> comparable lib dist d"
  shows "fst (add lib env dist) = None"
proof (cases "can_add env dist \<and> has_version dist")
  case False
  then show ?thesis by (auto simp add: add_def)
next
  case True
  then have hv: "has_version dist" by simp
  let ?ds = "lookup env (key dist)"
  have li: "list_inv lib env ?ds" by (rule env_inv_lookup [OF inv])
  have v: "has_version x" if "x \<in> set ?ds" for x
    using li that by (simp add: list_inv_def list_all_iff)
  obtain b where b: "dist_in_list lib dist ?ds = Inr b"
    using dist_in_list_total [of ?ds dist lib] v True by blast
  show ?thesis
  proof (cases b)
    case True
    with b \<open>can_add env dist \<and> has_version dist\<close> show ?thesis
      by (simp add: add_def lookup_def)
  next
    case False
    have "\<exists>l. sort_desc lib (?ds @ [dist]) = Inr l"
    proof (rule sort_desc_total)
      fix d assume "d \<in> set (?ds @ [dist])"
      then show "has_version d" using v True by auto
    next
      fix x y assume x: "x \<in> set (?ds @ [dist])" and y: "y \<in> set (?ds @ [dist])"
      show "comparable lib x y"
      proof (cases "x = dist")
        case True
        note xd = True
        show ?thesis
        proof (cases "y = dist")
          case True
          then show ?thesis using xd comparable_refl [OF hv] by simp
        next
          case False
          then have "y \<in> set ?ds" using y by simp
          then show ?thesis using xd cmp [OF hv] by simp
        qed
      next
        case False
        then have xs: "x \<in> set ?ds" using x by simp
        show ?thesis
        proof (cases "y = dist")
          case True
          then show ?thesis using comparable_sym [OF cmp [OF hv xs]] by simp
        next
          case False
          then have "y \<in> set ?ds" using y by simp
          then show ?thesis using xs list_inv_comparable [OF li] by simp
        qed
      qed
    qed
    then obtain l where "sort_desc lib (?ds @ [dist]) = Inr l" by blast
    with b False \<open>can_add env dist \<and> has_version dist\<close> show ?thesis
      by (simp add: add_def lookup_def)
  qed
qed

lemma add_invariant:
  assumes "env_inv lib env" and "add lib env dist = (None, env')"
  shows "env_inv lib env'"
  using assms(2) proof (cases rule: add_cases)
  case skip
  then show ?thesis using assms(1) by simp
next
  case present
  then show ?thesis using env_inv_dict_set [OF assms(1) env_inv_lookup [OF assms(1)]] by simp
next
  case (added l)
  let ?ds = "lookup env (key dist)"
  have li: "list_inv lib env ?ds" by (rule env_inv_lookup [OF assms(1)])
  have d: "distinct (map (hashcmp lib) (?ds @ [dist]))"
    using li dist_in_list_False [OF added(3)] by (simp add: list_inv_def)
  have s: "sorted_wrt (precedes lib) l" and e: "set l = set (?ds @ [dist])"
    using sort_desc_sound [OF added(4) d] by simp_all
  have "list_all (\<lambda>d. can_add env d \<and> has_version d) l"
    using li e added(1,2) by (auto simp add: list_inv_def list_all_iff)
  then have "list_inv lib env l"
    using s sorted_precedes_distinct [OF s] by (simp add: list_inv_def)
  then show ?thesis using env_inv_dict_set [OF assms(1)] added(5) by simp
qed


lemma release_values:
  "release ''0.9'' = [0, 9]" "release ''1.5'' = [1, 5]"
  by (simp_all add: release_def split_def int_of_digits_def digit_val_def)

lemma hashcmp_pkg_dist:
  "hashcmp release_packaging (pkg_dist v loc) = Inr (release v, 3, ''pkg'', loc, [], [])"
  by (simp add: hashcmp_def key_def lower_def lower_char_def pkg_dist_def release_packaging_def)

lemma can_add_env_of: "can_add (env_of ds) d"
  by (simp add: can_add_def env_of_def compatible_platforms_def split: option.splits)

lemma has_version_pkg_dist: "has_version (pkg_dist v loc)"
  by (simp add: has_version_def pkg_dist_def)





subsection \<open>Adding environments\<close>

lemma lower_char_idem: "lower_char (lower_char c) = lower_char c"
proof (cases "CHR ''A'' \<le> c \<and> c \<le> CHR ''Z''")
  case False
  then have "lower_char c = c" by (auto simp add: lower_char_def)
  then show ?thesis by simp
next
  case True
  then have r: "(65::nat) \<le> of_char c" "of_char c \<le> (90::nat)"
    by (simp_all add: less_eq_char_def)
  let ?d = "char_of (of_char c + (32::nat))"
  have "of_char ?d = of_char c + (32::nat)" using r by simp
  then have "\<not> (CHR ''A'' \<le> ?d \<and> ?d \<le> CHR ''Z'')" using r by (simp add: less_eq_char_def)
  then have "lower_char ?d = ?d" by (auto simp add: lower_char_def)
  moreover have "lower_char c = ?d" using True by (simp add: lower_char_def)
  ultimately show ?thesis by simp
qed

lemma lower_idem: "lower (lower s) = lower s"
  by (simp add: lower_def lower_char_idem)

lemma getitem_key: "getitem env (key d) = lookup env (key d)"
  by (simp add: getitem_def lookup_def key_def lower_idem)

lemma lookup_dict_set:
  "lookup (env\<lparr>distmap := dict_set k v (distmap env)\<rparr>) k' = (if k' = k then v else lookup env k')"
  by (simp add: lookup_def map_of_dict_set)

lemma add_platform:
  "add lib env d = (None, env') \<Longrightarrow> env_platform env' = env_platform env \<and> env_python env' = env_python env"
  by (erule add_cases) simp_all

lemma add_admits:
  assumes "add lib env d = (None, env')" and "can_add env d" and "has_version d"
  shows "\<exists>x \<in> set (lookup env' (key d)). hashcmp lib x = hashcmp lib d"
  using assms(1) proof (cases rule: add_cases)
  case skip
  then show ?thesis using assms(2,3) by simp
next
  case present
  then show ?thesis using dist_in_list_True [OF present(3)] by (simp add: lookup_dict_set)
next
  case (added l)
  then show ?thesis using set_sort_desc [OF added(4)] by (simp add: lookup_dict_set)
qed

lemma add_keeps:
  assumes "add lib env d = (None, env')" and "x \<in> set (lookup env k)"
  shows "x \<in> set (lookup env' k)"
  using assms(1) proof (cases rule: add_cases)
  case skip
  then show ?thesis using assms(2) by simp
next
  case present
  then show ?thesis using assms(2) by (auto simp add: lookup_dict_set)
next
  case (added l)
  then show ?thesis using assms(2) set_sort_desc [OF added(4)] by (auto simp add: lookup_dict_set)
qed

lemma add_all_platform:
  "add_all lib env ds = (None, env') \<Longrightarrow> env_platform env' = env_platform env \<and> env_python env' = env_python env"
proof (induction ds arbitrary: env)
  case Nil
  then show ?case by simp
next
  case (Cons d ds)
  from Cons.prems obtain env1 where 1: "add lib env d = (None, env1)" and 2: "add_all lib env1 ds = (None, env')"
    by (cases "add lib env d") (auto split: option.splits)
  show ?case using Cons.IH [OF 2] add_platform [OF 1] by simp
qed

lemma add_all_keeps:
  "add_all lib env ds = (None, env') \<Longrightarrow> x \<in> set (lookup env k) \<Longrightarrow> x \<in> set (lookup env' k)"
proof (induction ds arbitrary: env)
  case Nil
  then show ?case by simp
next
  case (Cons d ds)
  from Cons.prems(1) obtain env1 where 1: "add lib env d = (None, env1)" and 2: "add_all lib env1 ds = (None, env')"
    by (cases "add lib env d") (auto split: option.splits)
  show ?case using Cons.IH [OF 2 add_keeps [OF 1 Cons.prems(2)]] .
qed

lemma can_add_unrestricted:
  "env_platform env = None \<Longrightarrow> env_python env = None \<Longrightarrow> can_add env d"
  by (simp add: can_add_def compatible_platforms_def split: option.splits)

lemma add_all_admits:
  "add_all lib env ds = (None, env') \<Longrightarrow> env_platform env = None \<Longrightarrow> env_python env = None
     \<Longrightarrow> d \<in> set ds \<Longrightarrow> has_version d
     \<Longrightarrow> \<exists>x \<in> set (lookup env' (key d)). hashcmp lib x = hashcmp lib d"
proof (induction ds arbitrary: env)
  case Nil
  then show ?case by simp
next
  case (Cons a ds)
  from Cons.prems(1) obtain env1 where 1: "add lib env a = (None, env1)" and 2: "add_all lib env1 ds = (None, env')"
    by (cases "add lib env a") (auto split: option.splits)
  have p: "env_platform env1 = None" "env_python env1 = None"
    using add_platform [OF 1] Cons.prems(2,3) by simp_all
  show ?case
  proof (cases "d = a")
    case True
    have "\<exists>x \<in> set (lookup env1 (key d)). hashcmp lib x = hashcmp lib d"
      using add_admits [OF 1 can_add_unrestricted [OF Cons.prems(2,3)]] Cons.prems(5) True by simp
    then show ?thesis using add_all_keeps [OF 2] by blast
  next
    case False
    then have "d \<in> set ds" using Cons.prems(4) by simp
    then show ?thesis using Cons.IH [OF 2 p _ Cons.prems(5)] by simp
  qed
qed

lemma iadd_as_add_all: "iadd lib env other = add_all lib env (operand_dists other)"
  by (cases other)
     (simp_all add: iadd_def operand_dists_def all_dists_def split: prod.splits option.splits)

lemma Environment_init_empty:
  "Environment_init lib (Some []) p y = Inr \<lparr>distmap = [], env_platform = p, env_python = y\<rparr>"
  by (simp add: Environment_init_def scan_def)

lemma env_add_unfold:
  "env_add lib env other =
     (case add_all lib \<lparr>distmap = [], env_platform = None, env_python = None\<rparr> (all_dists env) of
        (Some e, new1) \<Rightarrow> Inl e
      | (None, new1) \<Rightarrow>
          (case add_all lib new1 (operand_dists other) of
             (Some e, new2) \<Rightarrow> Inl e
           | (None, new2) \<Rightarrow> Inr new2))"
  by (simp add: env_add_def Environment_init_empty iadd_as_add_all [of _ _ "Inr env"]
      operand_dists_def [of "Inr env"] iadd_as_add_all [of _ _ other]
      split: prod.splits option.splits)

text \<open>Distributions that all have a location can be compared, so adding them returns.\<close>

lemma located_comparable:
  assumes "has_version a" and "has_version b" and "location a \<noteq> None" and "location b \<noteq> None"
  shows "comparable lib a b"
proof -
  obtain va vb la lb where "version a = Some va" "version b = Some vb"
    "location a = Some la" "location b = Some lb"
    using assms by (auto simp add: has_version_def)
  then show ?thesis by (simp add: comparable_def hashcmp_def tuple_lt.simps)
qed

lemma add_located:
  assumes "add lib env d = (None, env')" and "location d \<noteq> None"
    and "\<And>k x. x \<in> set (lookup env k) \<Longrightarrow> location x \<noteq> None"
    and "x \<in> set (lookup env' k)"
  shows "location x \<noteq> None"
  using assms(1) proof (cases rule: add_cases)
  case skip
  then show ?thesis using assms(3,4) by simp
next
  case present
  then show ?thesis using assms(3,4) by (auto simp add: lookup_dict_set split: if_splits)
next
  case (added l)
  then show ?thesis
    using assms(2,3,4) set_sort_desc [OF added(4)] by (auto simp add: lookup_dict_set split: if_splits)
qed

lemma add_all_returns:
  "env_inv lib env \<Longrightarrow> (\<And>d. d \<in> set ds \<Longrightarrow> location d \<noteq> None)
     \<Longrightarrow> (\<And>k x. x \<in> set (lookup env k) \<Longrightarrow> location x \<noteq> None)
     \<Longrightarrow> \<exists>env'. add_all lib env ds = (None, env') \<and> env_inv lib env'
           \<and> (\<forall>k x. x \<in> set (lookup env' k) \<longrightarrow> location x \<noteq> None)"
proof (induction ds arbitrary: env)
  case Nil
  then show ?case by simp
next
  case (Cons d ds)
  have ld: "location d \<noteq> None" using Cons.prems(2) by simp
  have "fst (add lib env d) = None"
  proof (rule add_returns [OF Cons.prems(1)])
    fix x assume "has_version d" and x: "x \<in> set (lookup env (key d))"
    moreover have "has_version x"
      using env_inv_lookup [OF Cons.prems(1), of "key d"] x by (simp add: list_inv_def list_all_iff)
    ultimately show "comparable lib d x"
      using located_comparable ld Cons.prems(3) by blast
  qed
  then obtain env1 where 1: "add lib env d = (None, env1)" by (cases "add lib env d") simp
  have i1: "env_inv lib env1" by (rule add_invariant [OF Cons.prems(1) 1])
  have l1: "location x \<noteq> None" if "x \<in> set (lookup env1 k)" for k x
    using add_located [OF 1 ld _ that] Cons.prems(3) by blast
  have "\<exists>env'. add_all lib env1 ds = (None, env') \<and> env_inv lib env'
           \<and> (\<forall>k x. x \<in> set (lookup env' k) \<longrightarrow> location x \<noteq> None)"
    using Cons.prems(2) l1 by (intro Cons.IH [OF i1]) simp_all
  then show ?case using 1 by simp
qed

text \<open>
  Claim C10, amended: whenever \<open>e + x\<close> returns, the new environment has
  \<open>platform=None\<close> and \<open>python=None\<close>, accepts every distribution in \<open>can_add\<close>, and
  holds, for every distribution with a version that either operand yields, an equal
  distribution under its key, also when \<open>can_add\<close> of an operand rejects it. And it
  returns whenever all the distributions that the operands yield have a location.
\<close>

theorem env_add_unfiltered:
  "(env_add lib env other = Inr new \<longrightarrow>
      env_platform new = None \<and> env_python new = None \<and> (\<forall>d. can_add new d)
      \<and> (\<forall>d \<in> set (all_dists env) \<union> set (operand_dists other).
            has_version d \<longrightarrow> admitted lib new d))
   \<and> ((\<forall>d \<in> set (all_dists env) \<union> set (operand_dists other). location d \<noteq> None)
        \<longrightarrow> \<not> isl (env_add lib env other))"
proof -
  let ?new0 = "\<lparr>distmap = [], env_platform = None, env_python = None\<rparr>"
  have a: "env_platform new = None \<and> env_python new = None \<and> (\<forall>d. can_add new d)
      \<and> (\<forall>d \<in> set (all_dists env) \<union> set (operand_dists other).
            has_version d \<longrightarrow> admitted lib new d)"
    if r: "env_add lib env other = Inr new"
  proof -
    from r obtain new1 where 1: "add_all lib ?new0 (all_dists env) = (None, new1)"
      and 2: "add_all lib new1 (operand_dists other) = (None, new)"
      by (cases "add_all lib ?new0 (all_dists env)")
         (auto simp add: env_add_unfold split: option.splits prod.splits)
    have p1: "env_platform new1 = None" "env_python new1 = None"
      using add_all_platform [OF 1] by simp_all
    have p: "env_platform new = None" "env_python new = None"
      using add_all_platform [OF 2] p1 by simp_all
    have "admitted lib new d" if d: "d \<in> set (all_dists env) \<union> set (operand_dists other)"
      and v: "has_version d" for d
    proof -
      have "\<exists>x \<in> set (lookup new (key d)). hashcmp lib x = hashcmp lib d"
      proof (cases "d \<in> set (all_dists env)")
        case True
        have "\<exists>x \<in> set (lookup new1 (key d)). hashcmp lib x = hashcmp lib d"
          using add_all_admits [OF 1 _ _ True v] by simp
        then show ?thesis using add_all_keeps [OF 2] by blast
      next
        case False
        then have "d \<in> set (operand_dists other)" using d by simp
        then show ?thesis using add_all_admits [OF 2 p1 _ v] by simp
      qed
      then show ?thesis by (simp add: admitted_def getitem_key list_ex_iff)
    qed
    then show ?thesis using p can_add_unrestricted [OF p] by blast
  qed
  have b: "\<not> isl (env_add lib env other)"
    if l: "\<forall>d \<in> set (all_dists env) \<union> set (operand_dists other). location d \<noteq> None"
  proof -
    have i0: "env_inv lib ?new0" by (simp add: env_inv_def)
    have "\<exists>new1. add_all lib ?new0 (all_dists env) = (None, new1) \<and> env_inv lib new1
           \<and> (\<forall>k x. x \<in> set (lookup new1 k) \<longrightarrow> location x \<noteq> None)"
      using l by (intro add_all_returns [OF i0]) (simp_all add: lookup_def)
    then obtain new1 where 1: "add_all lib ?new0 (all_dists env) = (None, new1)"
      and i1: "env_inv lib new1"
      and l1: "\<And>k x. x \<in> set (lookup new1 k) \<Longrightarrow> location x \<noteq> None" by blast
    have "\<exists>new2. add_all lib new1 (operand_dists other) = (None, new2) \<and> env_inv lib new2
           \<and> (\<forall>k x. x \<in> set (lookup new2 k) \<longrightarrow> location x \<noteq> None)"
      using l l1 by (intro add_all_returns [OF i1]) simp_all
    then obtain new2 where 2: "add_all lib new1 (operand_dists other) = (None, new2)" by blast
    show ?thesis using 1 2 by (simp add: env_add_unfold)
  qed
  show ?thesis using a b by blast
qed

lemma pkg_py27_facts:
  "key pkg_py27 = ''pkg''" "has_version pkg_py27"
  "hashcmp release_packaging pkg_py27 = Inr ([1, 5], 3, ''pkg'', Some ''a'', ''2.7'', [])"
  "\<not> can_add (linux_env ds) pkg_py27"
  by (simp_all add: pkg_py27_def key_def lower_def lower_char_def pkg_dist_def has_version_def
      hashcmp_def release_packaging_def release_values can_add_def linux_env_def)

lemma env_add_example:
  "env_add release_packaging (linux_env [pkg_dist ''0.9'' (Some ''a'')]) (Inl pkg_py27)
     = Inr (env_of [pkg_py27, pkg_dist ''0.9'' (Some ''a'')])"
proof -
  let ?new0 = "\<lparr>distmap = [], env_platform = None, env_python = None\<rparr>"
  have g: "all_dists (linux_env [pkg_dist ''0.9'' (Some ''a'')]) = [pkg_dist ''0.9'' (Some ''a'')]"
    by (simp add: all_dists_def iter_def getitem_def linux_env_def lower_def lower_char_def)
  have c: "can_add ?new0 d" for d
    by (rule can_add_unrestricted) simp_all
  have a1: "add release_packaging ?new0 (pkg_dist ''0.9'' (Some ''a'')) = (None, env_of [pkg_dist ''0.9'' (Some ''a'')])"
    by (simp add: add_def c has_version_pkg_dist key_pkg_dist sort_desc_def hashcmp_pkg_dist env_of_def)
  have 1: "dist_in_list release_packaging pkg_py27 [pkg_dist ''0.9'' (Some ''a'')] = Inr False"
    by (simp add: dist_eq_def hashcmp_pkg_dist release_values pkg_py27_facts)
  have 2: "sort_desc release_packaging [pkg_dist ''0.9'' (Some ''a''), pkg_py27]
             = Inr [pkg_py27, pkg_dist ''0.9'' (Some ''a'')]"
    by (simp add: sort_desc_def hashcmp_pkg_dist release_values pkg_py27_facts tuple_lt.simps)
  have 3: "(case map_of (distmap (env_of ds)) ''pkg'' of None \<Rightarrow> [] | Some x \<Rightarrow> x) = ds" for ds
    by (simp add: env_of_def)
  have 4: "env_of ds\<lparr>distmap := dict_set ''pkg'' ds' (distmap (env_of ds))\<rparr> = env_of ds'" for ds ds'
    by (simp add: env_of_def)
  have a2: "add release_packaging (env_of [pkg_dist ''0.9'' (Some ''a'')]) pkg_py27
              = (None, env_of [pkg_py27, pkg_dist ''0.9'' (Some ''a'')])"
    by (simp add: add_def can_add_env_of pkg_py27_facts 1 2 3 4 Let_def del: dist_in_list.simps)
  show ?thesis
    by (simp add: env_add_unfold operand_dists_def g a1 a2)
qed

theorem env_add_unfiltered_witness:
  "\<not> can_add (linux_env [pkg_dist ''0.9'' (Some ''a'')]) pkg_py27
   \<and> env_add release_packaging (linux_env [pkg_dist ''0.9'' (Some ''a'')]) (Inl pkg_py27)
       = Inr (env_of [pkg_py27, pkg_dist ''0.9'' (Some ''a'')])
   \<and> admitted release_packaging (env_of [pkg_py27, pkg_dist ''0.9'' (Some ''a'')]) pkg_py27
   \<and> admitted release_packaging (env_of [pkg_py27, pkg_dist ''0.9'' (Some ''a'')])
        (pkg_dist ''0.9'' (Some ''a''))"
proof -
  have g: "all_dists (linux_env [pkg_dist ''0.9'' (Some ''a'')]) = [pkg_dist ''0.9'' (Some ''a'')]"
    by (simp add: all_dists_def iter_def getitem_def linux_env_def lower_def lower_char_def)
  have l: "location pkg_py27 \<noteq> None" "location (pkg_dist ''0.9'' (Some ''a'')) \<noteq> None"
    by (simp_all add: pkg_py27_def pkg_dist_def)
  show ?thesis
    using env_add_unfiltered [of release_packaging "linux_env [pkg_dist ''0.9'' (Some ''a'')]"
        "Inl pkg_py27" "env_of [pkg_py27, pkg_dist ''0.9'' (Some ''a'')]"] env_add_example l
    by (simp add: g operand_dists_def pkg_py27_facts has_version_pkg_dist)
qed

text \<open>
  Claim C10 as stated: \<open>e + x\<close> returns a new environment for every environment \<open>e\<close>
  and every distribution or environment \<open>x\<close>. Here \<open>e\<close> holds version 1.0 of \<open>pkg\<close>
  without location and \<open>x\<close> is version 1.0 at the location \<open>a\<close>, as a distribution or in
  an environment of its own: the sort inside \<open>add\<close> compares \<open>None\<close> with a string and
  \<open>e + x\<close> raises \<open>TypeError\<close>.
\<close>

theorem env_add_raises_counterexample:
  "env_add release_packaging (env_of [pkg_dist ''1.0'' None]) (Inl (pkg_dist ''1.0'' (Some ''a'')))
     = Inl TypeError
   \<and> env_add release_packaging (env_of [pkg_dist ''1.0'' None])
       (Inr (env_of [pkg_dist ''1.0'' (Some ''a'')])) = Inl TypeError"
proof -
  let ?new0 = "\<lparr>distmap = [], env_platform = None, env_python = None\<rparr>"
  have g: "all_dists (env_of ds) = ds" for ds
    by (cases ds) (simp_all add: all_dists_def iter_def getitem_def env_of_def lower_def lower_char_def)
  have c: "can_add ?new0 d" for d
    by (rule can_add_unrestricted) simp_all
  have a1: "add release_packaging ?new0 (pkg_dist ''1.0'' None) = (None, env_of [pkg_dist ''1.0'' None])"
    by (simp add: add_def c has_version_pkg_dist key_pkg_dist sort_desc_def hashcmp_pkg_dist env_of_def)
  have 1: "dist_in_list release_packaging (pkg_dist ''1.0'' (Some ''a'')) [pkg_dist ''1.0'' None] = Inr False"
    by (simp add: dist_eq_def hashcmp_pkg_dist)
  have 2: "sort_desc release_packaging [pkg_dist ''1.0'' None, pkg_dist ''1.0'' (Some ''a'')] = Inl TypeError"
    by (simp add: sort_desc_def hashcmp_pkg_dist tuple_lt.simps)
  have 3: "(case map_of (distmap (env_of ds)) ''pkg'' of None \<Rightarrow> [] | Some x \<Rightarrow> x) = ds" for ds
    by (simp add: env_of_def)
  have 4: "env_of ds\<lparr>distmap := dict_set ''pkg'' ds' (distmap (env_of ds))\<rparr> = env_of ds'" for ds ds'
    by (simp add: env_of_def)
  have a2: "add release_packaging (env_of [pkg_dist ''1.0'' None]) (pkg_dist ''1.0'' (Some ''a''))
       = (Some TypeError, env_of [pkg_dist ''1.0'' None, pkg_dist ''1.0'' (Some ''a'')])"
    by (simp add: add_def can_add_env_of has_version_pkg_dist key_pkg_dist 1 2 3 4 Let_def
        del: dist_in_list.simps)
  show ?thesis
    by (simp add: env_add_unfold operand_dists_def g a1 a2)
qed

subsection \<open>Entry points\<close>

lemma match_foo:
  "map_option (\<lambda>g. map g [''name'', ''module'', ''attr'', ''extras''])
     (re_match EntryPoint_pattern ''foo = pkg.mod:attr [x,y]'')
   = Some [Some ''foo'', Some ''pkg.mod'', Some ''attr'', Some ''[x,y]'']"
  by code_simp

lemma MODULE_pkg_mod: "MODULE ''pkg.mod''"
  by code_simp

lemma bracket_parser_xy:
  "bracket_parser id ''x[x,y]'' = Inr [\<lparr>p_name = ''x'', p_url = None, p_extras = [''x'', ''y''],
                                      p_specifier = [], p_marker = None\<rparr>]"
  "bracket_parser rev ''x[x,y]'' = Inr [\<lparr>p_name = ''x'', p_url = None, p_extras = [''y'', ''x''],
                                       p_specifier = [], p_marker = None\<rparr>]"
  by (simp_all add: bracket_parser_def partition_str_def split_def strip_def strip_chars_def isspace_def)

lemma safe_extra_xy: "safe_extra ''x'' = ''x''" "safe_extra ''y'' = ''y''"
  by (simp_all add: safe_extra_def lower_def lower_char_def is_alnum_def is_digit_def)

lemma two_elements:
  assumes "distinct xs" and "set xs = {a, b}" and "a \<noteq> b"
  shows "xs = [a, b] \<or> xs = [b, a]"
proof -
  have "length xs = 2" using assms distinct_card [of xs] by simp
  then obtain u v where xs: "xs = [u, v]"
    by (cases xs; cases "tl xs") auto
  then show ?thesis using assms(2,3) by (auto simp add: doubleton_eq_iff)
qed

text \<open>The entry point that \<open>parse\<close> builds from what the requirement parser yields.\<close>

lemma parse_foo:
  assumes "parse_reqs ''x[x,y]'' = Inr [p]" and "p_specifier p = []"
  shows "EntryPoint_parse parse_reqs ''foo = pkg.mod:attr [x,y]'' dist
           = Inr [''name'' \<mapsto> StrV ''foo'', ''module_name'' \<mapsto> StrV ''pkg.mod'',
                  ''attrs'' \<mapsto> TupleV [''attr''],
                  ''extras'' \<mapsto> TupleV (map safe_extra (p_extras p)),
                  ''dist'' \<mapsto> (case dist of None \<Rightarrow> NoneV | Some d \<Rightarrow> DistV d)]"
proof -
  from match_foo obtain res where m: "re_match EntryPoint_pattern ''foo = pkg.mod:attr [x,y]'' = Some res"
    and g: "res ''name'' = Some ''foo''" "res ''module'' = Some ''pkg.mod''"
      "res ''attr'' = Some ''attr''" "res ''extras'' = Some ''[x,y]''"
    by (cases "re_match EntryPoint_pattern ''foo = pkg.mod:attr [x,y]''") auto
  have e: "parse_extras parse_reqs (Some ''[x,y]'') = Inr (map safe_extra (p_extras p))"
    using assms
    by (simp add: parse_extras_def Requirement_parse_def Requirement_init_def specs_def Let_def)
  show ?thesis
    by (simp add: EntryPoint_parse_def m g e group_def split_def EntryPoint_init_def MODULE_pkg_mod)
qed

text \<open>
  Claim C7, amended: \<open>EntryPoint.parse("foo = pkg.mod:attr [x,y]")\<close> yields the name
  \<open>foo\<close>, the module \<open>pkg.mod\<close>, the attribute path \<open>("attr",)\<close> and, as extras, the
  extras that the requirement parser yields for \<open>x[x,y]\<close>, each made safe, in the order
  in which the parser yields them: for the two extras \<open>x\<close> and \<open>y\<close> that is
  \<open>("x", "y")\<close> or \<open>("y", "x")\<close>. Every attribute assignment on an
  importlib\_metadata entry point raises \<open>AttributeError\<close>; a pkg\_resources entry
  point, which is what \<open>parse\<close> returns, stores the assigned value.
\<close>

theorem entry_point_parse_and_setattr:
  assumes "parse_reqs ''x[x,y]'' = Inr [p]" and "p_specifier p = []"
  shows "EntryPoint_parse parse_reqs ''foo = pkg.mod:attr [x,y]'' dist
           = Inr [''name'' \<mapsto> StrV ''foo'', ''module_name'' \<mapsto> StrV ''pkg.mod'',
                  ''attrs'' \<mapsto> TupleV [''attr''],
                  ''extras'' \<mapsto> TupleV (map safe_extra (p_extras p)),
                  ''dist'' \<mapsto> (case dist of None \<Rightarrow> NoneV | Some d \<Rightarrow> DistV d)]
       \<and> (distinct (p_extras p) \<and> set (p_extras p) = {''x'', ''y''}
            \<longrightarrow> map safe_extra (p_extras p) = [''x'', ''y'']
                \<or> map safe_extra (p_extras p) = [''y'', ''x''])
       \<and> metadata_EntryPoint_setattr ep attr v = Inl AttributeError
       \<and> object_setattr ep attr v = Inr (ep(attr \<mapsto> v))"
proof -
  have "map safe_extra (p_extras p) = [''x'', ''y''] \<or> map safe_extra (p_extras p) = [''y'', ''x'']"
    if "distinct (p_extras p)" and "set (p_extras p) = {''x'', ''y''}"
    using two_elements [OF that] by (auto simp add: safe_extra_xy)
  then show ?thesis
    using parse_foo [of parse_reqs p dist] assms
    by (simp add: metadata_EntryPoint_setattr_def object_setattr_def)
qed

theorem entry_point_parse_and_setattr_witness:
  "EntryPoint_parse (bracket_parser id) ''foo = pkg.mod:attr [x,y]'' None = Inr parsed_foo
   \<and> metadata_EntryPoint_setattr parsed_foo ''name'' (StrV ''bar'') = Inl AttributeError"
  using entry_point_parse_and_setattr [of "bracket_parser id"
      "\<lparr>p_name = ''x'', p_url = None, p_extras = [''x'', ''y''], p_specifier = [], p_marker = None\<rparr>"
      None parsed_foo "''name''" "StrV ''bar''"]
  by (simp add: parsed_foo_def bracket_parser_xy safe_extra_xy)

text \<open>
  Claim C7 as stated: the extras are \<open>("x", "y")\<close>, and any attempt to set an attribute
  on a constructed entry point fails. With a requirement parser whose set of extras
  iterates \<open>y\<close> first, the extras of the parsed entry point are \<open>("y", "x")\<close>; and on the
  entry point that \<open>parse\<close> returns the assignment \<open>ep.name = "bar"\<close> succeeds and
  changes the name.
\<close>

theorem entry_point_immutable_counterexample:
  "EntryPoint_parse (bracket_parser rev) ''foo = pkg.mod:attr [x,y]'' None
     = Inr (parsed_foo(''extras'' \<mapsto> TupleV [''y'', ''x'']))
   \<and> (parsed_foo(''extras'' \<mapsto> TupleV [''y'', ''x''])) ''extras'' \<noteq> parsed_foo ''extras''
   \<and> EntryPoint_parse (bracket_parser id) ''foo = pkg.mod:attr [x,y]'' None = Inr parsed_foo
   \<and> object_setattr parsed_foo ''name'' (StrV ''bar'') = Inr (parsed_foo(''name'' \<mapsto> StrV ''bar''))
   \<and> (parsed_foo(''name'' \<mapsto> StrV ''bar'')) ''name'' = Some (StrV ''bar'')"
proof -
  have a: "EntryPoint_parse (bracket_parser rev) ''foo = pkg.mod:attr [x,y]'' None
     = Inr (parsed_foo(''extras'' \<mapsto> TupleV [''y'', ''x'']))"
    using parse_foo [of "bracket_parser rev"
        "\<lparr>p_name = ''x'', p_url = None, p_extras = [''y'', ''x''], p_specifier = [], p_marker = None\<rparr>"
        None]
    by (simp add: parsed_foo_def safe_extra_xy bracket_parser_xy fun_upd_twist)
  have b: "EntryPoint_parse (bracket_parser id) ''foo = pkg.mod:attr [x,y]'' None = Inr parsed_foo"
    using parse_foo [of "bracket_parser id"
        "\<lparr>p_name = ''x'', p_url = None, p_extras = [''x'', ''y''], p_specifier = [], p_marker = None\<rparr>"
        None]
    by (simp add: parsed_foo_def safe_extra_xy bracket_parser_xy)
  show ?thesis using a b by (simp add: object_setattr_def parsed_foo_def)
qed

subsection \<open>Extraction of zipped resources\<close>

lemma as_extraction_error_Inr:
  "as_extraction_error r = (Inr p, w') \<Longrightarrow> r = (Inr p, w')"
proof -
  assume a: "as_extraction_error r = (Inr p, w')"
  obtain x w where r: "r = (x, w)" by (cases r)
  show ?thesis
  proof (cases x)
    case (Inr q)
    with a r show ?thesis by (simp add: as_extraction_error_def)
  next
    case (Inl e)
    with a r show ?thesis by (cases e) (simp_all add: as_extraction_error_def)
  qed
qed

text \<open>What creating the ancestors of a path changes, and when it can be repeated.\<close>

lemma ensure_directory_unfold:
  "ensure_directory w path =
     (if dirname path \<noteq> [] \<and> snd (path_split path) \<noteq> [] \<and> dirname path \<notin> dirs w then
        (case ensure_directory w (dirname path) of
           (Some e, w') \<Rightarrow> (Some e, w')
         | (None, w') \<Rightarrow>
             if files w' (dirname path) \<noteq> None \<or> dirname path \<in> dirs w' then (None, w')
             else if dirname (dirname path) \<noteq> [] \<and> dirname (dirname path) \<notin> dirs w'
             then (Some OSError, w')
             else (None, w'\<lparr>dirs := insert (dirname path) (dirs w')\<rparr>))
      else (None, w))"
  by (subst ensure_directory.simps)
     (simp add: Let_def mkdir_def dirname_def split: prod.splits option.splits)

lemma ensure_directory_stop:
  assumes "\<not> (dirname path \<noteq> [] \<and> snd (path_split path) \<noteq> [] \<and> dirname path \<notin> dirs w)"
  shows "ensure_directory w path = (None, w)"
  using assms by (subst ensure_directory_unfold) (simp only: if_False)

lemma ensure_directory_step:
  assumes "dirname path \<noteq> [] \<and> snd (path_split path) \<noteq> [] \<and> dirname path \<notin> dirs w"
  shows "ensure_directory w path =
        (case ensure_directory w (dirname path) of
           (Some e, w') \<Rightarrow> (Some e, w')
         | (None, w') \<Rightarrow>
             if files w' (dirname path) \<noteq> None \<or> dirname path \<in> dirs w' then (None, w')
             else if dirname (dirname path) \<noteq> [] \<and> dirname (dirname path) \<notin> dirs w'
             then (Some OSError, w')
             else (None, w'\<lparr>dirs := insert (dirname path) (dirs w')\<rparr>))"
  using assms by (subst ensure_directory_unfold) simp

lemma ensure_directory_frame:
  "files (snd (ensure_directory w q)) = files w
   \<and> written (snd (ensure_directory w q)) = written w
   \<and> cached_files (snd (ensure_directory w q)) = cached_files w
   \<and> dirs w \<subseteq> dirs (snd (ensure_directory w q))"
proof (induction w q rule: ensure_directory.induct)
  case (1 w path)
  show ?case
  proof (cases "dirname path \<noteq> [] \<and> snd (path_split path) \<noteq> [] \<and> dirname path \<notin> dirs w")
    case False
    then show ?thesis by (simp add: ensure_directory_stop [of path w])
  next
    case True
    obtain r w' where r: "ensure_directory w (dirname path) = (r, w')"
      by (cases "ensure_directory w (dirname path)")
    have "files (snd (ensure_directory w (dirname path))) = files w
       \<and> written (snd (ensure_directory w (dirname path))) = written w
       \<and> cached_files (snd (ensure_directory w (dirname path))) = cached_files w
       \<and> dirs w \<subseteq> dirs (snd (ensure_directory w (dirname path)))"
      using 1 [OF refl refl] True by (simp add: dirname_def)
    then have ih: "files w' = files w" "written w' = written w" "cached_files w' = cached_files w"
      "dirs w \<subseteq> dirs w'" using r by simp_all
    show ?thesis
      using r ih by (cases r) (auto simp add: ensure_directory_step [OF True])
  qed
qed

lemma ensure_directory_again:
  "fst (ensure_directory w q) = None \<Longrightarrow> dirs (snd (ensure_directory w q)) \<subseteq> dirs v
     \<Longrightarrow> (\<And>x. files w x \<noteq> None \<Longrightarrow> files v x \<noteq> None)
     \<Longrightarrow> ensure_directory v q = (None, v)"
proof (induction v q rule: ensure_directory.induct)
  case (1 v path)
  let ?d = "dirname path"
  show ?case
  proof (cases "?d \<noteq> [] \<and> snd (path_split path) \<noteq> [] \<and> ?d \<notin> dirs v")
    case False
    then show ?thesis by (rule ensure_directory_stop)
  next
    case True
    have nw: "?d \<notin> dirs w"
    proof
      assume "?d \<in> dirs w"
      then have "?d \<in> dirs (snd (ensure_directory w path))"
        using ensure_directory_frame [of w path] by blast
      then show False using "1.prems"(2) True by blast
    qed
    obtain r w' where r: "ensure_directory w ?d = (r, w')" by (cases "ensure_directory w ?d")
    have fr: "files w' = files w" using ensure_directory_frame [of w ?d] r by simp
    have u: "ensure_directory w path =
        (case r of
           Some e \<Rightarrow> (Some e, w')
         | None \<Rightarrow>
             if files w' ?d \<noteq> None \<or> ?d \<in> dirs w' then (None, w')
             else if dirname ?d \<noteq> [] \<and> dirname ?d \<notin> dirs w' then (Some OSError, w')
             else (None, w'\<lparr>dirs := insert ?d (dirs w')\<rparr>))"
      using True nw r by (simp add: ensure_directory_step [of path w])
    have rn: "r = None" using "1.prems"(1) u by (cases r) simp_all
    have ex: "files w' ?d \<noteq> None \<or> ?d \<in> dirs w'"
    proof (rule ccontr)
      assume n: "\<not> (files w' ?d \<noteq> None \<or> ?d \<in> dirs w')"
      then have "ensure_directory w path = (None, w'\<lparr>dirs := insert ?d (dirs w')\<rparr>)"
        using u rn "1.prems"(1) by (simp split: if_splits)
      then have "?d \<in> dirs (snd (ensure_directory w path))" by simp
      then show False using "1.prems"(2) True by blast
    qed
    then have e: "ensure_directory w path = (None, w')" using u rn by simp
    have "?d \<notin> dirs w'" using e "1.prems"(2) True by auto
    then have "files w ?d \<noteq> None" using ex fr by simp
    then have fv: "files v ?d \<noteq> None" by (rule "1.prems"(3))
    have "ensure_directory v (fst (path_split path)) = (None, v)"
    proof (rule "1.IH" [OF refl refl])
      show "fst (path_split path) \<noteq> [] \<and> snd (path_split path) \<noteq> [] \<and> fst (path_split path) \<notin> dirs v"
        using True by (simp add: dirname_def)
      show "fst (ensure_directory w (fst (path_split path))) = None"
        using r rn by (simp add: dirname_def)
      show "dirs (snd (ensure_directory w (fst (path_split path)))) \<subseteq> dirs v"
        using r e "1.prems"(2) by (simp add: dirname_def)
      show "\<And>x. files w x \<noteq> None \<Longrightarrow> files v x \<noteq> None" by (rule "1.prems"(3))
    qed
    then show ?thesis using fv by (simp add: ensure_directory_step [OF True] dirname_def)
  qed
qed

lemma get_cache_path_Inr:
  assumes "get_cache_path P manager w name' ps = (Inr p, w1)"
  shows "p = cache_path P manager name' ps \<and> WRITE_SUPPORT P
       \<and> fst (ensure_directory w p) = None
       \<and> w1 = (snd (ensure_directory w p))\<lparr>cached_files := insert p (cached_files w)\<rparr>
       \<and> warn_unsafe_extraction_path P (snd (ensure_directory w p)) (extract_path_of P manager) = Inr ()"
proof -
  let ?t = "cache_path P manager name' ps"
  obtain r wa where e: "ensure_directory w ?t = (r, wa)" by (cases "ensure_directory w ?t")
  have c: "cached_files wa = cached_files w" using ensure_directory_frame [of w ?t] e by simp
  show ?thesis
  proof (cases "WRITE_SUPPORT P")
    case False
    with assms show ?thesis by (simp add: get_cache_path_def bypass_ensure_directory_def Let_def)
  next
    case True
    note ws = True
    show ?thesis
    proof (cases r)
      case (Some x)
      with assms ws e show ?thesis by (simp add: get_cache_path_def bypass_ensure_directory_def Let_def)
    next
      case None
      show ?thesis
      proof (cases "warn_unsafe_extraction_path P wa (extract_path_of P manager)")
        case (Inl x)
        with assms ws e None show ?thesis
          by (simp add: get_cache_path_def bypass_ensure_directory_def Let_def)
      next
        case (Inr u)
        with assms ws e None c show ?thesis
          by (auto simp add: get_cache_path_def bypass_ensure_directory_def Let_def)
      qed
    qed
  qed
qed

lemma get_cache_path_ok:
  assumes "WRITE_SUPPORT P"
    and "ensure_directory w (cache_path P manager name' ps) = (None, wa)"
    and "warn_unsafe_extraction_path P wa (extract_path_of P manager) = Inr ()"
  shows "get_cache_path P manager w name' ps
           = (Inr (cache_path P manager name' ps),
              wa\<lparr>cached_files := insert (cache_path P manager name' ps) (cached_files wa)\<rparr>)"
  using assms by (simp add: get_cache_path_def bypass_ensure_directory_def Let_def)

lemma is_current_files:
  "files a = files b \<Longrightarrow> is_current P self a p z = is_current P self b p z"
  by (simp add: is_current_def split: option.splits prod.splits)

lemma is_current_file:
  "files a p = files b p \<Longrightarrow> is_current P self a p z = is_current P self b p z"
  by (simp add: is_current_def split: option.splits prod.splits)

lemma is_current_exists: "is_current P self w p z = Inr True \<Longrightarrow> files w p \<noteq> None"
  by (auto simp add: is_current_def split: option.splits prod.splits if_splits)

lemma mkstemp_Inr:
  assumes "mkstemp P w d = Inr (t, w1)"
  shows "files w t = None
       \<and> w1 = w\<lparr>files := (files w)(t \<mapsto> \<lparr>contents = [], st_mtime = now P\<rparr>),
                 written := written w @ [t]\<rparr>"
proof (cases "d \<in> dirs w")
  case False
  with assms show ?thesis by (simp add: mkstemp_def)
next
  case True
  let ?free = "\<lambda>n. files w (temp_path d n) = None \<and> temp_path d n \<notin> dirs w"
  show ?thesis
  proof (cases "List.find ?free (temp_names P)")
    case None
    with assms True show ?thesis by (simp add: mkstemp_def)
  next
    case (Some n)
    then have "?free n" by (auto simp add: find_Some_iff)
    with assms True Some show ?thesis by (auto simp add: mkstemp_def)
  qed
qed

lemma rename_Inr:
  assumes "rename P w src dst = Inr w'"
  shows "\<exists>f. files w src = Some f
           \<and> w' = w\<lparr>files := ((files w)(src := None))(dst \<mapsto> f), written := written w @ [src, dst]\<rparr>"
proof (cases "files w src")
  case None
  with assms show ?thesis by (simp add: rename_def)
next
  case (Some f)
  with assms show ?thesis by (auto simp add: rename_def split: if_splits)
qed

lemma unlink_Inr:
  "unlink w path = Inr w'
     \<Longrightarrow> w' = w\<lparr>files := (files w)(path := None), written := written w @ [path]\<rparr>"
  by (cases "files w path") (simp_all add: unlink_def)

text \<open>What a returning handler and a returning write_and_rename leave behind.\<close>

lemma rename_failed_Inr:
  assumes "rename_failed P self w2 t rp z e = (Inr p, w')"
    and f2: "files w2 = (files w)(t \<mapsto> \<lparr>contents = data, st_mtime = ts\<rparr>)"
    and m: "files w t = None"
  shows "p = rp \<and> dirs w' = dirs w2 \<and> cached_files w' = cached_files w2
       \<and> (\<forall>q. files w q \<noteq> None \<longrightarrow> files w' q \<noteq> None)
       \<and> (\<forall>q. q \<noteq> rp \<longrightarrow> files w q \<noteq> None \<longrightarrow> files w' q = files w q)
       \<and> (files w' rp = Some \<lparr>contents = data, st_mtime = ts\<rparr>
            \<or> is_current P self w' rp z = Inr True)"
proof (cases "files w2 rp \<noteq> None")
  case False
  with assms(1) show ?thesis by (simp add: rename_failed_def)
next
  case True
  note ex = True
  have keep2: "files w q \<noteq> None \<Longrightarrow> files w2 q = files w q" for q using m by (auto simp add: f2)
  show ?thesis
  proof (cases "is_current P self w2 rp z")
    case (Inl e')
    with assms(1) ex show ?thesis by (simp add: rename_failed_def)
  next
    case (Inr b)
    note cur = Inr
    show ?thesis
    proof (cases b)
      case True
      with assms(1) cur ex have "p = rp" and "w' = w2" by (simp_all add: rename_failed_def)
      then show ?thesis using keep2 cur True by auto
    next
      case False
      note nb = False
      show ?thesis
      proof (cases "os_name P = ''nt''")
        case False
        with assms(1) cur nb ex show ?thesis by (simp add: rename_failed_def)
      next
        case True
        note nt = True
        show ?thesis
        proof (cases "unlink w2 rp")
          case (Inl e')
          with assms(1) cur nb ex nt show ?thesis by (simp add: rename_failed_def)
        next
          case (Inr w3)
          note un = Inr
          have w3: "w3 = w2\<lparr>files := (files w2)(rp := None), written := written w2 @ [rp]\<rparr>"
            by (rule unlink_Inr [OF un])
          show ?thesis
          proof (cases "rename P w3 t rp")
            case (Inl e')
            with assms(1) cur nb ex nt un show ?thesis by (simp add: rename_failed_def)
          next
            case (Inr w4)
            with assms(1) cur nb ex nt un have pr: "p = rp" and ww: "w' = w4"
              by (simp_all add: rename_failed_def)
            from rename_Inr [OF Inr] obtain f where
              f: "files w3 t = Some f"
              and w4: "w4 = w3\<lparr>files := ((files w3)(t := None))(rp \<mapsto> f),
                               written := written w3 @ [t, rp]\<rparr>"
              by blast
            have trp: "t \<noteq> rp" using f w3 by auto
            then have ff: "f = \<lparr>contents = data, st_mtime = ts\<rparr>" using f w3 f2 by simp
            have "files w q \<noteq> None \<longrightarrow> files w4 q \<noteq> None" for q
              using m by (auto simp add: w4 w3 f2)
            moreover have "q \<noteq> rp \<longrightarrow> files w q \<noteq> None \<longrightarrow> files w4 q = files w q" for q
              using m by (auto simp add: w4 w3 f2)
            ultimately show ?thesis using pr ww w4 w3 ff by auto
          qed
        qed
      qed
    qed
  qed
qed

lemma write_and_rename_Inr:
  assumes "write_and_rename P self w rp z ts = (Inr p, w')"
  shows "p = rp \<and> dirs w' = dirs w \<and> cached_files w' = cached_files w
       \<and> (\<forall>q. files w q \<noteq> None \<longrightarrow> files w' q \<noteq> None)
       \<and> (\<forall>q. q \<noteq> rp \<longrightarrow> files w q \<noteq> None \<longrightarrow> files w' q = files w q)
       \<and> (\<exists>data. get_data self z = Some data
             \<and> (files w' rp = Some \<lparr>contents = data, st_mtime = ts\<rparr>
                  \<or> is_current P self w' rp z = Inr True))"
proof (cases "mkstemp P w (dirname rp)")
  case (Inl e)
  with assms show ?thesis by (simp add: write_and_rename_def)
next
  case (Inr tw)
  note mk = Inr
  obtain t w1 where tw: "tw = (t, w1)" by (cases tw)
  have m: "files w t = None"
    and w1: "w1 = w\<lparr>files := (files w)(t \<mapsto> \<lparr>contents = [], st_mtime = now P\<rparr>),
                    written := written w @ [t]\<rparr>"
    using mkstemp_Inr mk tw by blast+
  show ?thesis
  proof (cases "get_data self z")
    case None
    with assms mk tw show ?thesis by (simp add: write_and_rename_def)
  next
    case (Some data)
    define w2 where "w2 = w1\<lparr>files := (files w1)(t \<mapsto> \<lparr>contents = data, st_mtime = ts\<rparr>),
                              written := written w1 @ [t]\<rparr>"
    have f2: "files w2 = (files w)(t \<mapsto> \<lparr>contents = data, st_mtime = ts\<rparr>)"
      and d2: "dirs w2 = dirs w" and c2: "cached_files w2 = cached_files w"
      by (simp_all add: w2_def w1)
    have body: "write_and_rename P self w rp z ts =
        (case rename P w2 t rp of
           Inr w3 \<Rightarrow> (Inr rp, w3)
         | Inl e \<Rightarrow> rename_failed P self w2 t rp z e)"
      using mk tw Some unfolding w2_def by (simp add: write_and_rename_def Let_def)
    show ?thesis
    proof (cases "rename P w2 t rp")
      case (Inr w3)
      then have r: "p = rp" "w' = w3" using assms body by simp_all
      from rename_Inr [OF Inr] f2
      have w3: "w3 = w2\<lparr>files := ((files w2)(t := None))(rp \<mapsto> \<lparr>contents = data, st_mtime = ts\<rparr>),
                        written := written w2 @ [t, rp]\<rparr>"
        by auto
      have "files w q \<noteq> None \<longrightarrow> files w3 q \<noteq> None" for q
        using m by (auto simp add: w3 f2)
      moreover have "q \<noteq> rp \<longrightarrow> files w q \<noteq> None \<longrightarrow> files w3 q = files w q" for q
        using m by (auto simp add: w3 f2)
      ultimately show ?thesis using r w3 d2 c2 Some by auto
    next
      case (Inl e)
      then have "rename_failed P self w2 t rp z e = (Inr p, w')" using assms body by simp
      from rename_failed_Inr [OF this f2 m] show ?thesis using d2 c2 Some by auto
    qed
  qed
qed

lemma extract_file_unfold:
  assumes "map_of (zipinfo self) z = Some zi" and "WRITE_SUPPORT P"
    and "egg_name self = Some name'" and "name' \<noteq> []" and "parts self z = Inr ps"
    and "get_cache_path P manager w name' ps = (Inr rp, w1)"
  shows "extract_file P self manager w z =
           as_extraction_error
             (case is_current P self w1 rp z of
                Inl e \<Rightarrow> (Inl e, w1)
              | Inr True \<Rightarrow> (Inr rp, w1)
              | Inr False \<Rightarrow> write_and_rename P self w1 rp z (mktime P (date_time zi)))"
  using assms by (simp add: extract_file_def get_date_and_size_def)

lemma extract_file_Inr:
  assumes "extract_file P self manager w z = (Inr p, w')"
  obtains zi name' ps w1 where "map_of (zipinfo self) z = Some zi" and "WRITE_SUPPORT P"
    and "egg_name self = Some name'" and "name' \<noteq> []" and "parts self z = Inr ps"
    and "get_cache_path P manager w name' ps = (Inr p, w1)"
    and "(is_current P self w1 p z = Inr True \<and> w' = w1)
         \<or> (is_current P self w1 p z = Inr False
             \<and> write_and_rename P self w1 p z (mktime P (date_time zi)) = (Inr p, w'))"
proof (cases "map_of (zipinfo self) z")
  case None
  with assms show ?thesis by (simp add: extract_file_def)
next
  case (Some zi)
  note zi = Some
  show ?thesis
  proof (cases "WRITE_SUPPORT P")
    case False
    with assms zi show ?thesis by (simp add: extract_file_def get_date_and_size_def)
  next
    case True
    note ws = True
    have nE: "as_extraction_error (Inl e, v) \<noteq> (Inr p, w')" for e v
      using as_extraction_error_Inr [of "(Inl e, v)" p w'] by auto
    show ?thesis
    proof (cases "egg_name self")
      case None
      with assms zi ws nE show ?thesis by (simp add: extract_file_def get_date_and_size_def)
    next
      case (Some name')
      note en = Some
      show ?thesis
      proof (cases "name' = []")
        case True
        with assms zi ws en nE show ?thesis by (simp add: extract_file_def get_date_and_size_def)
      next
        case False
        note ne = False
        show ?thesis
        proof (cases "parts self z")
          case (Inl e)
          with assms zi ws en ne nE show ?thesis
            by (simp add: extract_file_def get_date_and_size_def)
        next
          case (Inr ps)
          note ps = Inr
          obtain x w1 where g: "get_cache_path P manager w name' ps = (x, w1)"
            by (cases "get_cache_path P manager w name' ps")
          show ?thesis
          proof (cases x)
            case (Inl e)
            with assms zi ws en ne ps g nE show ?thesis
              by (simp add: extract_file_def get_date_and_size_def)
          next
            case (Inr rp)
            note rp = Inr
            have u: "extract_file P self manager w z =
               as_extraction_error
                 (case is_current P self w1 rp z of
                    Inl e \<Rightarrow> (Inl e, w1)
                  | Inr True \<Rightarrow> (Inr rp, w1)
                  | Inr False \<Rightarrow> write_and_rename P self w1 rp z (mktime P (date_time zi)))"
              using extract_file_unfold [OF zi ws en ne ps] g rp by simp
            show ?thesis
            proof (cases "is_current P self w1 rp z")
              case (Inl e)
              with assms u nE show ?thesis by simp
            next
              case (Inr b)
              note cur = Inr
              show ?thesis
              proof (cases b)
                case True
                with assms u cur have "(Inr rp, w1) = (Inr p, w')"
                  using as_extraction_error_Inr [of "(Inr rp, w1)" p w'] by simp
                then have "rp = p" and "w1 = w'" by simp_all
                then show ?thesis using that [OF zi ws en ne ps] g rp cur True by simp
              next
                case False
                with assms u cur
                have wr: "write_and_rename P self w1 rp z (mktime P (date_time zi)) = (Inr p, w')"
                  using as_extraction_error_Inr by simp
                then have "p = rp" using write_and_rename_Inr by blast
                then show ?thesis using that [OF zi ws en ne ps] g rp cur False wr by simp
              qed
            qed
          qed
        qed
      qed
    qed
  qed
qed

lemma warn_unsafe_mono:
  assumes "warn_unsafe_extraction_path P a ep = Inr ()" and "dirs a \<subseteq> dirs b"
    and "\<And>q. files a q \<noteq> None \<Longrightarrow> files b q \<noteq> None"
  shows "warn_unsafe_extraction_path P b ep = Inr ()"
proof (cases "os_name P = ''nt'' \<and> \<not> startswith ep (windir P)")
  case True
  then show ?thesis by (simp add: warn_unsafe_extraction_path_def)
next
  case False
  then have "ep \<in> dirs a \<or> files a ep \<noteq> None"
    using assms(1) by (auto simp add: warn_unsafe_extraction_path_def split: if_splits)
  then have "ep \<in> dirs b \<or> files b ep \<noteq> None" using assms(2,3) by blast
  then show ?thesis by (auto simp add: warn_unsafe_extraction_path_def)
qed

lemma is_current_written:
  assumes "map_of (zipinfo self) z = Some zi" and "get_data self z = Some data"
    and "file_size zi = length data"
    and "files w p = Some \<lparr>contents = data, st_mtime = mktime P (date_time zi)\<rparr>"
  shows "is_current P self w p z = Inr True"
  using assms by (simp add: is_current_def get_date_and_size_def)

lemma cached_current_iff:
  "cached_current P self manager w z
     \<longleftrightarrow> is_current P self w (target P self manager z) z = Inr True"
  by (cases "is_current P self w (target P self manager z) z") (auto simp add: cached_current_def)

text \<open>The effect of an extraction of one entry that returns.\<close>

lemma extract_file_effect:
  assumes "extract_file P self manager w z = (Inr p, w1)"
  shows "p = target P self manager z
       \<and> dirs w \<subseteq> dirs w1
       \<and> cached_files w1 = insert p (cached_files w)
       \<and> (\<forall>q. files w q \<noteq> None \<longrightarrow> files w1 q \<noteq> None)
       \<and> (\<forall>q. q \<noteq> p \<longrightarrow> files w q \<noteq> None \<longrightarrow> files w1 q = files w q)
       \<and> (cached_current P self manager w z \<longrightarrow> files w1 = files w \<and> written w1 = written w)
       \<and> (entry_size_ok self z \<longrightarrow> cached_current P self manager w1 z)
       \<and> (\<forall>v. dirs w1 \<subseteq> dirs v \<longrightarrow> (\<forall>q. files w q \<noteq> None \<longrightarrow> files v q \<noteq> None)
              \<longrightarrow> p \<in> cached_files v \<longrightarrow> cached_current P self manager v z
              \<longrightarrow> extract_file P self manager v z = (Inr p, v))"
  using assms
proof (cases rule: extract_file_Inr)
  case (1 zi name' ps wa)
  note g = get_cache_path_Inr [OF 1(6)]
  let ?e = "snd (ensure_directory w p)"
  have pc: "p = cache_path P manager name' ps" and e0: "fst (ensure_directory w p) = None"
    and wa: "wa = ?e\<lparr>cached_files := insert p (cached_files w)\<rparr>"
    and warn: "warn_unsafe_extraction_path P ?e (extract_path_of P manager) = Inr ()"
    using g by blast+
  have pt: "p = target P self manager z" using pc 1(3,5) by (simp add: target_def)
  have fe: "files ?e = files w" "written ?e = written w" "dirs w \<subseteq> dirs ?e"
    using ensure_directory_frame [of w p] by simp_all
  have fa: "files wa = files w" and ra: "written wa = written w" and da: "dirs wa = dirs ?e"
    and ca: "cached_files wa = insert p (cached_files w)"
    using fe by (simp_all add: wa)
  have d1: "dirs w1 = dirs wa" and c1: "cached_files w1 = cached_files wa"
    and keep: "\<And>q. files wa q \<noteq> None \<Longrightarrow> files w1 q \<noteq> None"
    and same: "\<And>q. q \<noteq> p \<Longrightarrow> files wa q \<noteq> None \<Longrightarrow> files w1 q = files wa q"
    using 1(7) write_and_rename_Inr [of P self wa p z "mktime P (date_time zi)" p w1] by auto
  have part6: "files w1 = files w \<and> written w1 = written w" if "cached_current P self manager w z"
  proof -
    have "is_current P self w p z = Inr True" using that pt by (simp add: cached_current_iff)
    then have "is_current P self wa p z = Inr True" using is_current_files [OF fa] by simp
    then have "w1 = wa" using 1(7) by auto
    then show ?thesis using fa ra by simp
  qed
  have part7: "cached_current P self manager w1 z" if ok: "entry_size_ok self z"
  proof -
    from 1(7) have "is_current P self w1 p z = Inr True"
    proof
      assume "is_current P self wa p z = Inr True \<and> w1 = wa"
      then show ?thesis by simp
    next
      assume "is_current P self wa p z = Inr False
              \<and> write_and_rename P self wa p z (mktime P (date_time zi)) = (Inr p, w1)"
      then have "write_and_rename P self wa p z (mktime P (date_time zi)) = (Inr p, w1)" by simp
      from write_and_rename_Inr [OF this] obtain data where d: "get_data self z = Some data"
        and alt: "files w1 p = Some \<lparr>contents = data, st_mtime = mktime P (date_time zi)\<rparr>
                  \<or> is_current P self w1 p z = Inr True" by blast
      have "file_size zi = length data" using ok 1(1) d by (simp add: entry_size_ok_def)
      then show ?thesis using alt is_current_written [OF 1(1) d] by blast
    qed
    then show ?thesis using pt by (simp add: cached_current_iff)
  qed
  have part8: "extract_file P self manager v z = (Inr p, v)"
    if dv: "dirs w1 \<subseteq> dirs v" and fv: "\<And>q. files w q \<noteq> None \<Longrightarrow> files v q \<noteq> None"
      and cv: "p \<in> cached_files v" and cur: "cached_current P self manager v z" for v
  proof -
    have sub: "dirs ?e \<subseteq> dirs v" using dv d1 da by simp
    have en: "ensure_directory v p = (None, v)"
      by (rule ensure_directory_again [OF e0 sub fv])
    have wv: "warn_unsafe_extraction_path P v (extract_path_of P manager) = Inr ()"
      by (rule warn_unsafe_mono [OF warn sub]) (simp add: fe fv)
    have "v\<lparr>cached_files := insert p (cached_files v)\<rparr> = v" using cv by (simp add: insert_absorb)
    then have gv: "get_cache_path P manager v name' ps = (Inr p, v)"
      using get_cache_path_ok [OF 1(2), of v manager name' ps v] en wv pc by simp
    have "is_current P self v p z = Inr True" using cur pt by (simp add: cached_current_iff)
    then show ?thesis
      using extract_file_unfold [OF 1(1,2,3,4,5) gv] by (simp add: as_extraction_error_def)
  qed
  have "dirs w \<subseteq> dirs w1" using fe(3) da d1 by simp
  moreover have "cached_files w1 = insert p (cached_files w)" using c1 ca by simp
  moreover have "\<forall>q. files w q \<noteq> None \<longrightarrow> files w1 q \<noteq> None" using keep fa by simp
  moreover have "\<forall>q. q \<noteq> p \<longrightarrow> files w q \<noteq> None \<longrightarrow> files w1 q = files w q"
    using same fa by simp
  ultimately show ?thesis using pt part6 part7 part8 by blast
qed

lemma extract_file_target:
  "extract_file P self manager w z = (Inr p, w1) \<Longrightarrow> p = target P self manager z"
  by (rule extract_file_effect [THEN conjunct1])

lemma extract_file_extended:
  assumes "extract_file P self manager w z = (Inr p, w1)"
  shows "extended {target P self manager z} w w1"
proof -
  note e = extract_file_effect [OF assms]
  have p: "p = target P self manager z" by (rule e [THEN conjunct1])
  have 1: "dirs w \<subseteq> dirs w1" by (rule e [THEN conjunct2, THEN conjunct1])
  have 2: "cached_files w1 = insert p (cached_files w)"
    by (rule e [THEN conjunct2, THEN conjunct2, THEN conjunct1])
  have 3: "\<forall>q. files w q \<noteq> None \<longrightarrow> files w1 q \<noteq> None"
    by (rule e [THEN conjunct2, THEN conjunct2, THEN conjunct2, THEN conjunct1])
  have 4: "\<forall>q. q \<noteq> p \<longrightarrow> files w q \<noteq> None \<longrightarrow> files w1 q = files w q"
    by (rule e [THEN conjunct2, THEN conjunct2, THEN conjunct2, THEN conjunct2, THEN conjunct1])
  show ?thesis unfolding extended_def using p 1 2 3 4 by auto
qed

lemma extract_file_current:
  assumes "extract_file P self manager w z = (Inr p, w1)"
  shows "cached_current P self manager w z \<longrightarrow> files w1 = files w \<and> written w1 = written w"
    and "entry_size_ok self z \<longrightarrow> cached_current P self manager w1 z"
proof -
  note e = extract_file_effect [OF assms, THEN conjunct2, THEN conjunct2, THEN conjunct2,
      THEN conjunct2, THEN conjunct2]
  show "cached_current P self manager w z \<longrightarrow> files w1 = files w \<and> written w1 = written w"
    by (rule e [THEN conjunct1])
  show "entry_size_ok self z \<longrightarrow> cached_current P self manager w1 z"
    by (rule e [THEN conjunct2, THEN conjunct1])
qed

lemma extract_file_replay:
  assumes "extract_file P self manager w z = (Inr p, w1)"
    and "dirs w1 \<subseteq> dirs v" and "\<And>q. files w q \<noteq> None \<Longrightarrow> files v q \<noteq> None"
    and "p \<in> cached_files v" and "cached_current P self manager v z"
  shows "extract_file P self manager v z = (Inr p, v)"
proof -
  note e = extract_file_effect [OF assms(1), THEN conjunct2, THEN conjunct2, THEN conjunct2,
      THEN conjunct2, THEN conjunct2, THEN conjunct2, THEN conjunct2, THEN spec, of v]
  show ?thesis using e assms(2-5) by simp
qed

text \<open>The loop over the children of a directory.\<close>

lemma extract_children_Nil:
  "extract_children f zp [] last' w = Some (Inr p, w')
     \<Longrightarrow> w' = w \<and> (\<exists>l. last' = Some l \<and> p = dirname l)"
  by (cases last') simp_all

lemma extract_children_Cons:
  assumes "extract_children f zp (c # cs) last' w = Some (Inr p, w')"
  obtains l w1 where "f w (join2 zp c) = Some (Inr l, w1)"
    and "extract_children f zp cs (Some l) w1 = Some (Inr p, w')"
proof (cases "f w (join2 zp c)")
  case None
  with assms show ?thesis by simp
next
  case (Some r)
  obtain x w1 where r: "r = (x, w1)" by (cases r)
  show ?thesis
  proof (cases x)
    case (Inl e)
    with assms Some r show ?thesis by simp
  next
    case (Inr l)
    with assms Some r that show ?thesis by simp
  qed
qed

lemma extract_resource_dir:
  "map_of (index self) z = Some cs \<Longrightarrow>
     extract_resource (Suc n) P self manager w z
       = extract_children (extract_resource n P self manager) z cs None w"
  by simp

lemma extract_resource_file:
  "map_of (index self) z = None \<Longrightarrow>
     extract_resource (Suc n) P self manager w z = Some (extract_file P self manager w z)"
  by simp

lemma leaves_dir:
  "map_of (index self) z = Some cs \<Longrightarrow>
     set (leaves (Suc n) self z) = (\<Union>c \<in> set cs. set (leaves n self (join2 z c)))"
  by simp

lemma leaves_file: "map_of (index self) z = None \<Longrightarrow> leaves (Suc n) self z = [z]"
  by simp

text \<open>Every extraction that returns gives the same path.\<close>

lemma extract_children_det:
  assumes "\<And>w v z p q w' v'. f w z = Some (Inr p, w') \<Longrightarrow> g v z = Some (Inr q, v') \<Longrightarrow> p = q"
  shows "extract_children f zp cs last' w = Some (Inr p, w')
     \<Longrightarrow> extract_children g zp cs last' v = Some (Inr q, v') \<Longrightarrow> p = q"
proof (induction cs arbitrary: last' w v)
  case Nil
  then show ?case by (cases last') simp_all
next
  case (Cons c cs)
  from Cons.prems(1) obtain l w1 where f: "f w (join2 zp c) = Some (Inr l, w1)"
    and f': "extract_children f zp cs (Some l) w1 = Some (Inr p, w')"
    by (rule extract_children_Cons)
  from Cons.prems(2) obtain l2 v1 where g: "g v (join2 zp c) = Some (Inr l2, v1)"
    and g': "extract_children g zp cs (Some l2) v1 = Some (Inr q, v')"
    by (rule extract_children_Cons)
  have "l = l2" by (rule assms [OF f g])
  with f' g' show ?case using Cons.IH by blast
qed

lemma extract_resource_det:
  "extract_resource n P self manager w z = Some (Inr p, w')
     \<Longrightarrow> extract_resource m P self manager v z = Some (Inr q, v') \<Longrightarrow> p = q"
proof (induction n arbitrary: m w v z p q w' v')
  case 0
  then show ?case by simp
next
  case (Suc n)
  from Suc.prems(2) obtain m' where m: "m = Suc m'" by (cases m) simp_all
  show ?case
  proof (cases "map_of (index self) z")
    case (Some cs)
    have a: "extract_children (extract_resource n P self manager) z cs None w = Some (Inr p, w')"
      using Suc.prems(1) Some by simp
    have b: "extract_children (extract_resource m' P self manager) z cs None v = Some (Inr q, v')"
      using Suc.prems(2) Some m by simp
    show ?thesis
      by (rule extract_children_det [OF _ a b]) (rule Suc.IH)
  next
    case None
    have "extract_file P self manager w z = (Inr p, w')" using Suc.prems(1) None by simp
    moreover have "extract_file P self manager v z = (Inr q, v')" using Suc.prems(2) None m by simp
    ultimately show ?thesis using extract_file_target by blast
  qed
qed

text \<open>What an extraction that returns leaves unchanged.\<close>

lemma extended_trans:
  assumes "extended T1 w w'" and "extended T2 w' w1"
  shows "extended (T1 \<union> T2) w w1"
proof -
  have 1: "dirs w \<subseteq> dirs w1" using assms by (auto simp add: extended_def)
  have 2: "cached_files w \<union> (T1 \<union> T2) \<subseteq> cached_files w1"
    using assms by (auto simp add: extended_def)
  have 3: "files w1 q \<noteq> None" if "files w q \<noteq> None" for q
  proof -
    have "files w' q \<noteq> None" using assms(1) that by (simp add: extended_def)
    then show ?thesis using assms(2) by (simp add: extended_def)
  qed
  have 4: "files w1 q = files w q" if "q \<notin> T1 \<union> T2" and "files w q \<noteq> None" for q
  proof -
    have a: "files w' q = files w q" using assms(1) that by (simp add: extended_def)
    then have "files w' q \<noteq> None" using that by simp
    then have "files w1 q = files w' q" using assms(2) that by (simp add: extended_def)
    then show ?thesis using a by simp
  qed
  show ?thesis unfolding extended_def using 1 2 3 4 by blast
qed

lemma extract_children_extended:
  assumes "\<And>w z p w1. f w z = Some (Inr p, w1) \<Longrightarrow> extended (T z) w w1"
  shows "extract_children f zp cs last' w = Some (Inr p, w1)
     \<Longrightarrow> extended (\<Union>c \<in> set cs. T (join2 zp c)) w w1"
proof (induction cs arbitrary: last' w)
  case Nil
  then have "w1 = w" using extract_children_Nil by blast
  then show ?case by (simp add: extended_def)
next
  case (Cons c cs)
  from Cons.prems obtain l w' where f: "f w (join2 zp c) = Some (Inr l, w')"
    and r: "extract_children f zp cs (Some l) w' = Some (Inr p, w1)"
    by (rule extract_children_Cons)
  have "extended (T (join2 zp c) \<union> (\<Union>c \<in> set cs. T (join2 zp c))) w w1"
    by (rule extended_trans [OF assms [OF f] Cons.IH [OF r]])
  then show ?case by simp
qed

lemma extract_resource_extended:
  "extract_resource n P self manager w z = Some (Inr p, w1)
     \<Longrightarrow> extended (target P self manager ` set (leaves n self z)) w w1"
proof (induction n arbitrary: w z p w1)
  case 0
  then show ?case by simp
next
  case (Suc n)
  show ?case
  proof (cases "map_of (index self) z")
    case None
    have e: "extract_file P self manager w z = (Inr p, w1)" using Suc.prems None by simp
    show ?thesis using extract_file_extended [OF e] None by simp
  next
    case (Some cs)
    have a: "extract_children (extract_resource n P self manager) z cs None w = Some (Inr p, w1)"
      using Suc.prems Some by simp
    have "extended (\<Union>c \<in> set cs. target P self manager ` set (leaves n self (join2 z c))) w w1"
      by (rule extract_children_extended [OF _ a]) (rule Suc.IH)
    then show ?thesis using Some by (simp add: image_UN)
  qed
qed

text \<open>An extraction that finds every cached file current writes no file.\<close>

lemma cached_current_files:
  "files a = files b \<Longrightarrow> cached_current P self manager a z = cached_current P self manager b z"
  by (simp add: cached_current_def is_current_files [of a b])

lemma extract_children_noop:
  assumes "\<And>w z p w1. f w z = Some (Inr p, w1)
             \<Longrightarrow> \<forall>l \<in> set (L z). cached_current P self manager w l
             \<Longrightarrow> files w1 = files w \<and> written w1 = written w"
  shows "extract_children f zp cs last' w = Some (Inr p, w1)
     \<Longrightarrow> \<forall>c \<in> set cs. \<forall>l \<in> set (L (join2 zp c)). cached_current P self manager w l
     \<Longrightarrow> files w1 = files w \<and> written w1 = written w"
proof (induction cs arbitrary: last' w)
  case Nil
  have "w1 = w" using extract_children_Nil [OF Nil.prems(1)] by simp
  then show ?case by simp
next
  case (Cons c cs)
  from Cons.prems(1) obtain l w' where f: "f w (join2 zp c) = Some (Inr l, w')"
    and r: "extract_children f zp cs (Some l) w' = Some (Inr p, w1)"
    by (rule extract_children_Cons)
  have s: "files w' = files w \<and> written w' = written w"
    using assms [OF f] Cons.prems(2) by simp
  then have "\<forall>c \<in> set cs. \<forall>l \<in> set (L (join2 zp c)). cached_current P self manager w' l"
    using Cons.prems(2) cached_current_files [of w' w] by simp
  then have "files w1 = files w' \<and> written w1 = written w'" by (rule Cons.IH [OF r])
  then show ?case using s by simp
qed

lemma extract_resource_noop:
  "extract_resource n P self manager w z = Some (Inr p, w1)
     \<Longrightarrow> \<forall>l \<in> set (leaves n self z). cached_current P self manager w l
     \<Longrightarrow> files w1 = files w \<and> written w1 = written w"
proof (induction n arbitrary: w z p w1)
  case 0
  then show ?case by simp
next
  case (Suc n)
  show ?case
  proof (cases "map_of (index self) z")
    case None
    have e: "extract_file P self manager w z = (Inr p, w1)" using Suc.prems(1) None by simp
    have "cached_current P self manager w z" using Suc.prems(2) None by simp
    then show ?thesis using extract_file_current(1) [OF e] by simp
  next
    case (Some cs)
    have a: "extract_children (extract_resource n P self manager) z cs None w = Some (Inr p, w1)"
      using Suc.prems(1) Some by simp
    have b: "\<forall>c \<in> set cs. \<forall>l \<in> set (leaves n self (join2 z c)). cached_current P self manager w l"
      using Suc.prems(2) Some by simp
    show ?thesis
      by (rule extract_children_noop [where L = "leaves n self", OF _ a b]) (rule Suc.IH)
  qed
qed

text \<open>After an extraction that returned, the cached files of its entries are current.\<close>

lemma cached_current_kept:
  assumes e: "extended T w w1" and c: "cached_current P self manager w l"
    and n: "target P self manager l \<notin> T"
  shows "cached_current P self manager w1 l"
proof -
  let ?p = "target P self manager l"
  have ic: "is_current P self w ?p l = Inr True" using c by (simp add: cached_current_iff)
  have ex: "files w ?p \<noteq> None" by (rule is_current_exists [OF ic])
  have "\<forall>q. q \<notin> T \<longrightarrow> files w q \<noteq> None \<longrightarrow> files w1 q = files w q"
    using e unfolding extended_def by (elim conjE)
  then have "files w1 ?p = files w ?p" using n ex by blast
  then have "is_current P self w1 ?p l = is_current P self w ?p l" by (rule is_current_file)
  then show ?thesis using ic by (simp add: cached_current_iff)
qed

lemma extract_children_current:
  assumes cur: "\<And>w z p w1. f w z = Some (Inr p, w1) \<Longrightarrow> set (L z) \<subseteq> S
             \<Longrightarrow> \<forall>l \<in> set (L z). cached_current P self manager w1 l"
    and ext: "\<And>w z p w1. f w z = Some (Inr p, w1)
             \<Longrightarrow> extended (target P self manager ` set (L z)) w w1"
    and inj: "inj_on (target P self manager) S"
  shows "extract_children f zp cs last' w = Some (Inr p, w1)
     \<Longrightarrow> (\<Union>c \<in> set cs. set (L (join2 zp c))) \<union> A \<subseteq> S
     \<Longrightarrow> \<forall>l \<in> A. cached_current P self manager w l
     \<Longrightarrow> \<forall>l \<in> (\<Union>c \<in> set cs. set (L (join2 zp c))) \<union> A. cached_current P self manager w1 l"
proof (induction cs arbitrary: last' w A)
  case Nil
  have "w1 = w" using extract_children_Nil [OF Nil.prems(1)] by simp
  then show ?case using Nil.prems(3) by simp
next
  case (Cons c cs)
  from Cons.prems(1) obtain l w' where f: "f w (join2 zp c) = Some (Inr l, w')"
    and r: "extract_children f zp cs (Some l) w' = Some (Inr p, w1)"
    by (rule extract_children_Cons)
  let ?Lc = "set (L (join2 zp c))"
  have sub: "?Lc \<subseteq> S" using Cons.prems(2) by auto
  have new: "\<forall>x \<in> ?Lc. cached_current P self manager w' x" by (rule cur [OF f sub])
  have old: "cached_current P self manager w' x" if x: "x \<in> A" for x
  proof (cases "target P self manager x \<in> target P self manager ` ?Lc")
    case True
    then obtain y where y: "y \<in> ?Lc" and t: "target P self manager y = target P self manager x"
      by auto
    have "x \<in> S" and "y \<in> S" using Cons.prems(2) x y by auto
    then have "y = x" using inj_onD [OF inj t] by simp
    then show ?thesis using new y by simp
  next
    case False
    have "cached_current P self manager w x" using Cons.prems(3) x by simp
    then show ?thesis using cached_current_kept [OF ext [OF f] _ False] by simp
  qed
  have s1: "(\<Union>c \<in> set cs. set (L (join2 zp c))) \<union> (?Lc \<union> A) \<subseteq> S"
    using Cons.prems(2) by (simp add: Un_assoc Un_left_commute Un_commute)
  have s2: "\<forall>x \<in> ?Lc \<union> A. cached_current P self manager w' x" using new old by blast
  have "\<forall>x \<in> (\<Union>c \<in> set cs. set (L (join2 zp c))) \<union> (?Lc \<union> A). cached_current P self manager w1 x"
    by (rule Cons.IH [OF r s1 s2])
  moreover have "(\<Union>c \<in> set (c # cs). set (L (join2 zp c))) \<union> A
               = (\<Union>c \<in> set cs. set (L (join2 zp c))) \<union> (?Lc \<union> A)"
    by (simp add: Un_assoc Un_left_commute Un_commute)
  ultimately show ?case by simp
qed

lemma extract_resource_current:
  "extract_resource n P self manager w z = Some (Inr p, w1)
     \<Longrightarrow> set (leaves n self z) \<subseteq> S
     \<Longrightarrow> \<forall>l \<in> S. entry_size_ok self l \<Longrightarrow> inj_on (target P self manager) S
     \<Longrightarrow> \<forall>l \<in> set (leaves n self z). cached_current P self manager w1 l"
proof (induction n arbitrary: w z p w1)
  case 0
  then show ?case by simp
next
  case (Suc n)
  show ?case
  proof (cases "map_of (index self) z")
    case None
    have e: "extract_file P self manager w z = (Inr p, w1)" using Suc.prems(1) None by simp
    have "entry_size_ok self z" using Suc.prems(2,3) None by simp
    then show ?thesis using extract_file_current(2) [OF e] None by simp
  next
    case (Some cs)
    have a: "extract_children (extract_resource n P self manager) z cs None w = Some (Inr p, w1)"
      using Suc.prems(1) Some by simp
    have "\<forall>l \<in> (\<Union>c \<in> set cs. set (leaves n self (join2 z c))) \<union> {}.
            cached_current P self manager w1 l"
    proof (rule extract_children_current [where L = "leaves n self" and S = S, OF _ _ Suc.prems(4) a])
      show "\<And>w z p w1. extract_resource n P self manager w z = Some (Inr p, w1)
              \<Longrightarrow> set (leaves n self z) \<subseteq> S
              \<Longrightarrow> \<forall>l \<in> set (leaves n self z). cached_current P self manager w1 l"
        using Suc.IH Suc.prems(3,4) by blast
      show "\<And>w z p w1. extract_resource n P self manager w z = Some (Inr p, w1)
              \<Longrightarrow> extended (target P self manager ` set (leaves n self z)) w w1"
        by (rule extract_resource_extended)
      show "(\<Union>c \<in> set cs. set (leaves n self (join2 z c))) \<union> {} \<subseteq> S"
        using Suc.prems(2) Some by simp
      show "\<forall>l \<in> {}. cached_current P self manager w l" by simp
    qed
    then show ?thesis using Some by simp
  qed
qed

text \<open>
  An extraction that returned can be repeated in every later world in which the cached
  files of its entries are current, and then changes nothing.
\<close>

lemma extract_children_replay:
  assumes rep: "\<And>w z p w1. f w z = Some (Inr p, w1) \<Longrightarrow> dirs w1 \<subseteq> dirs v
             \<Longrightarrow> (\<And>q. files w1 q \<noteq> None \<Longrightarrow> files v q \<noteq> None)
             \<Longrightarrow> cached_files w1 \<subseteq> cached_files v
             \<Longrightarrow> \<forall>l \<in> set (L z). cached_current P self manager v l
             \<Longrightarrow> g v z = Some (Inr p, v)"
    and ext: "\<And>w z p w1. f w z = Some (Inr p, w1) \<Longrightarrow> extended (T z) w w1"
  shows "extract_children f zp cs last' w = Some (Inr p, w1)
     \<Longrightarrow> dirs w1 \<subseteq> dirs v \<Longrightarrow> (\<And>q. files w1 q \<noteq> None \<Longrightarrow> files v q \<noteq> None)
     \<Longrightarrow> cached_files w1 \<subseteq> cached_files v
     \<Longrightarrow> \<forall>c \<in> set cs. \<forall>l \<in> set (L (join2 zp c)). cached_current P self manager v l
     \<Longrightarrow> extract_children g zp cs last' v = Some (Inr p, v)"
proof (induction cs arbitrary: last' w)
  case Nil
  show ?case using extract_children_Nil [OF Nil.prems(1)] by auto
next
  case (Cons c cs)
  from Cons.prems(1) obtain l w' where f: "f w (join2 zp c) = Some (Inr l, w')"
    and r: "extract_children f zp cs (Some l) w' = Some (Inr p, w1)"
    by (rule extract_children_Cons)
  have e: "extended (\<Union>c \<in> set cs. T (join2 zp c)) w' w1"
    by (rule extract_children_extended [OF ext r])
  have "g v (join2 zp c) = Some (Inr l, v)"
  proof (rule rep [OF f])
    show "dirs w' \<subseteq> dirs v" using e Cons.prems(2) by (auto simp add: extended_def)
    show "\<And>q. files w' q \<noteq> None \<Longrightarrow> files v q \<noteq> None"
      using e Cons.prems(3) by (simp add: extended_def)
    show "cached_files w' \<subseteq> cached_files v" using e Cons.prems(4) by (auto simp add: extended_def)
    show "\<forall>l \<in> set (L (join2 zp c)). cached_current P self manager v l"
      using Cons.prems(5) by simp
  qed
  moreover have "extract_children g zp cs (Some l) v = Some (Inr p, v)"
    using Cons.prems(5) by (intro Cons.IH [OF r Cons.prems(2,3,4)]) simp_all
  ultimately show ?case by simp
qed

lemma extract_resource_replay:
  "extract_resource n P self manager w z = Some (Inr p, w1)
     \<Longrightarrow> dirs w1 \<subseteq> dirs v \<Longrightarrow> (\<And>q. files w1 q \<noteq> None \<Longrightarrow> files v q \<noteq> None)
     \<Longrightarrow> cached_files w1 \<subseteq> cached_files v
     \<Longrightarrow> \<forall>l \<in> set (leaves n self z). cached_current P self manager v l
     \<Longrightarrow> extract_resource n P self manager v z = Some (Inr p, v)"
proof (induction n arbitrary: w z p w1)
  case 0
  then show ?case by simp
next
  case (Suc n)
  show ?case
  proof (cases "map_of (index self) z")
    case None
    have e: "extract_file P self manager w z = (Inr p, w1)" using Suc.prems(1) None by simp
    have x: "extended {target P self manager z} w w1" by (rule extract_file_extended [OF e])
    have "extract_file P self manager v z = (Inr p, v)"
    proof (rule extract_file_replay [OF e Suc.prems(2)])
      show "\<And>q. files w q \<noteq> None \<Longrightarrow> files v q \<noteq> None"
        using x Suc.prems(3) by (simp add: extended_def)
      show "p \<in> cached_files v"
        using x Suc.prems(4) extract_file_target [OF e] by (auto simp add: extended_def)
      show "cached_current P self manager v z" using Suc.prems(5) None by simp
    qed
    then show ?thesis using None by simp
  next
    case (Some cs)
    have a: "extract_children (extract_resource n P self manager) z cs None w = Some (Inr p, w1)"
      using Suc.prems(1) Some by simp
    have "extract_children (extract_resource n P self manager) z cs None v = Some (Inr p, v)"
    proof (rule extract_children_replay [where L = "leaves n self"
          and T = "\<lambda>z. target P self manager ` set (leaves n self z)", OF _ _ a Suc.prems(2,3,4)])
      show "\<And>w z p w1. extract_resource n P self manager w z = Some (Inr p, w1)
              \<Longrightarrow> dirs w1 \<subseteq> dirs v \<Longrightarrow> (\<And>q. files w1 q \<noteq> None \<Longrightarrow> files v q \<noteq> None)
              \<Longrightarrow> cached_files w1 \<subseteq> cached_files v
              \<Longrightarrow> \<forall>l \<in> set (leaves n self z). cached_current P self manager v l
              \<Longrightarrow> extract_resource n P self manager v z = Some (Inr p, v)"
        using Suc.IH by blast
      show "\<And>w z p w1. extract_resource n P self manager w z = Some (Inr p, w1)
              \<Longrightarrow> extended (target P self manager ` set (leaves n self z)) w w1"
        by (rule extract_resource_extended)
      show "\<forall>c \<in> set cs. \<forall>l \<in> set (leaves n self (join2 z c)). cached_current P self manager v l"
        using Suc.prems(5) Some by simp
    qed simp_all
    then show ?thesis using Some by simp
  qed
qed

text \<open>
  Claim C5, amended: every extraction of a resource that returns, from whatever state of
  the file system, returns the same path; for an entry that is a file it is the cache path
  of the entry. An extraction that finds the cached files of all the entries of the
  resource current writes no file: it leaves the files and the log of writes as they are.
  Here current means that the cached file has the size and the time of the archive entry
  and also the same bytes. And when the size recorded for every entry is the size of its
  bytes and no two entries of the resource are cached at the same path, then after an
  extraction that returned all the cached files are current, and a second extraction
  returns the same path and changes nothing at all.
\<close>

theorem extract_resource_twice:
  assumes "extract_resource n P self manager w zip_path = Some (Inr p, w1)"
  shows "(extract_resource m P self manager v zip_path = Some (Inr q, v1) \<longrightarrow> q = p)
       \<and> (map_of (index self) zip_path = None
            \<longrightarrow> leaves n self zip_path = [zip_path] \<and> target P self manager zip_path = p)
       \<and> (list_all (cached_current P self manager w) (leaves n self zip_path)
            \<longrightarrow> files w1 = files w \<and> written w1 = written w)
       \<and> (list_all (entry_size_ok self) (leaves n self zip_path)
          \<and> distinct (map (target P self manager) (remdups (leaves n self zip_path)))
            \<longrightarrow> list_all (cached_current P self manager w1) (leaves n self zip_path)
                \<and> extract_resource n P self manager w1 zip_path = Some (Inr p, w1))"
proof -
  have a: "q = p" if "extract_resource m P self manager v zip_path = Some (Inr q, v1)"
    using extract_resource_det [OF that assms] .
  have b: "leaves n self zip_path = [zip_path] \<and> target P self manager zip_path = p"
    if f: "map_of (index self) zip_path = None"
  proof -
    from assms obtain n' where n: "n = Suc n'" by (cases n) simp_all
    have "extract_file P self manager w zip_path = (Inr p, w1)" using assms n f by simp
    then show ?thesis using extract_file_target n f by simp
  qed
  have c: "files w1 = files w \<and> written w1 = written w"
    if "list_all (cached_current P self manager w) (leaves n self zip_path)"
    using extract_resource_noop [OF assms] that by (simp add: list_all_iff)
  have d: "list_all (cached_current P self manager w1) (leaves n self zip_path)
         \<and> extract_resource n P self manager w1 zip_path = Some (Inr p, w1)"
    if s: "list_all (entry_size_ok self) (leaves n self zip_path)"
      and i: "distinct (map (target P self manager) (remdups (leaves n self zip_path)))"
  proof -
    have inj: "inj_on (target P self manager) (set (leaves n self zip_path))"
      using i by (simp add: distinct_map)
    have cur: "\<forall>l \<in> set (leaves n self zip_path). cached_current P self manager w1 l"
      using s by (intro extract_resource_current [OF assms subset_refl _ inj])
                 (simp add: list_all_iff)
    have "extract_resource n P self manager w1 zip_path = Some (Inr p, w1)"
      by (rule extract_resource_replay [OF assms subset_refl _ subset_refl cur]) simp
    then show ?thesis using cur by (simp add: list_all_iff)
  qed
  show ?thesis using a b c d by blast
qed

text \<open>
  Claim C5 as stated: a cached file whose size and time equal those of the archive entry
  is not rewritten. Here the cached file has the size and the time of the entry but other
  bytes, and the extraction replaces it.
\<close>

theorem stale_file_rewritten_counterexample:
  "map_of (zipinfo egg) ''top.txt'' = Some \<lparr>file_size = 1, date_time = (1980, 1, 1, 0, 0, 0)\<rparr>
   \<and> files stale_world ''/cache/pkg.egg-tmp/top.txt''
       = Some \<lparr>contents = ''z'', st_mtime = mktime P0 (1980, 1, 1, 0, 0, 0)\<rparr>
   \<and> length ''z'' = 1
   \<and> extracted_path (extract_resource 1 P0 egg manager0 stale_world ''top.txt'')
       = Some ''/cache/pkg.egg-tmp/top.txt''
   \<and> file_after (extract_resource 1 P0 egg manager0 stale_world ''top.txt'') ''/cache/pkg.egg-tmp/top.txt''
       = Some \<lparr>contents = ''y'', st_mtime = mktime P0 (1980, 1, 1, 0, 0, 0)\<rparr>
   \<and> written_after (extract_resource 1 P0 egg manager0 stale_world ''top.txt'')
       = [''/cache/pkg.egg-tmp/tmpa.$extract'', ''/cache/pkg.egg-tmp/tmpa.$extract'',
          ''/cache/pkg.egg-tmp/tmpa.$extract'', ''/cache/pkg.egg-tmp/top.txt'']"
  by code_simp

lemma egg_leaves:
  "leaves 3 egg [] = [''data/a.txt'', ''top.txt'']"
  "list_all (entry_size_ok egg) [''data/a.txt'', ''top.txt'']"
  "distinct (map (target P0 egg manager0) (remdups [''data/a.txt'', ''top.txt'']))"
  by code_simp+

theorem extract_resource_twice_witness:
  "\<exists>w1. extract_resource 3 P0 egg manager0 empty_world [] = Some (Inr ''/cache/pkg.egg-tmp'', w1)
        \<and> written w1 \<noteq> written empty_world
        \<and> list_all (cached_current P0 egg manager0 w1) [''data/a.txt'', ''top.txt'']
        \<and> extract_resource 3 P0 egg manager0 w1 [] = Some (Inr ''/cache/pkg.egg-tmp'', w1)"
proof -
  have "extracted_path (extract_resource 3 P0 egg manager0 empty_world []) = Some ''/cache/pkg.egg-tmp''
      \<and> written_after (extract_resource 3 P0 egg manager0 empty_world []) \<noteq> []"
    by code_simp
  then obtain w1 where first: "extract_resource 3 P0 egg manager0 empty_world []
                           = Some (Inr ''/cache/pkg.egg-tmp'', w1)"
    and wr: "written w1 \<noteq> []"
    by (auto simp add: extracted_path_def written_after_def split: option.splits sum.splits prod.splits)
  from extract_resource_twice [OF first] egg_leaves
  have "list_all (cached_current P0 egg manager0 w1) [''data/a.txt'', ''top.txt'']
        \<and> extract_resource 3 P0 egg manager0 w1 [] = Some (Inr ''/cache/pkg.egg-tmp'', w1)"
    by simp
  with first wr show ?thesis by (auto simp add: empty_world_def)
qed

end
